theory Spec2Isabelle
  imports Complex_Main "HOL-Library.Sublist" "HOL-Library.Log_Nat"
begin

section \<open>Values, errors and literal formatting\<close>

text \<open>
  The exceptions the modelled functions of \<^verbatim>\<open>slice_sql.py\<close> can raise. An index into
  a tuple or list that is too short is Python's IndexError; a slice count of zero makes
  \<^verbatim>\<open>total / k\<close> raise ZeroDivisionError, and a quotient too large for a float makes
  it raise OverflowError.
\<close>

datatype error =
  RuntimeError string | ValueError string | IndexError | ZeroDivisionError | OverflowError

text \<open>
  The key values a driver hands back and \<^verbatim>\<open>fmt_literal\<close> tells apart:
  strings, datetimes (year, month, day, hour, minute, second, microsecond), dates,
  None, and integers for the final \<^verbatim>\<open>str(v)\<close> branch. Decimals and floats also take
  that branch in the source; their text is not modelled.
\<close>

datatype key_value =
    VStr string
  | VDateTime nat nat nat nat nat nat nat
  | VDate nat nat nat
  | VNone
  | VInt int

abbreviation (input) sq :: char where
  "sq \<equiv> CHR 0x27"

definition digit_char :: "nat \<Rightarrow> char" where
  "digit_char d = ''0123456789'' ! d"

function str_nat :: "nat \<Rightarrow> string" where
  "str_nat n = (if n < 10 then [digit_char n] else str_nat (n div 10) @ [digit_char (n mod 10)])"
  by pat_completeness auto
termination
  by (relation "measure id") auto

declare str_nat.simps [simp del]

text \<open>Python's \<^verbatim>\<open>str\<close> on an int.\<close>

definition str_int :: "int \<Rightarrow> string" where
  "str_int i = (if i < 0 then ''-'' @ str_nat (nat (- i)) else str_nat (nat i))"

definition zfill :: "nat \<Rightarrow> string \<Rightarrow> string" where
  "zfill w s = replicate (w - length s) (CHR ''0'') @ s"

text \<open>
  The formats \<^verbatim>\<open>%Y-%m-%d\<close> and \<^verbatim>\<open>%H:%M:%S\<close>, zero padded as Python documents
  them (\<^verbatim>\<open>%Y\<close> as 0001, ..., 9999). The C library of some platforms leaves a year
  below 1000 unpadded; no statement below is about such a year.
\<close>

definition fmt_ymd :: "nat \<Rightarrow> nat \<Rightarrow> nat \<Rightarrow> string" where
  "fmt_ymd y m d = zfill 4 (str_nat y) @ ''-'' @ zfill 2 (str_nat m) @ ''-'' @ zfill 2 (str_nat d)"

definition fmt_hms :: "nat \<Rightarrow> nat \<Rightarrow> nat \<Rightarrow> string" where
  "fmt_hms h m s = zfill 2 (str_nat h) @ '':'' @ zfill 2 (str_nat m) @ '':'' @ zfill 2 (str_nat s)"

text \<open>
  \<^verbatim>\<open>fmt_literal\<close>: a string is quoted with its quotes doubled; a datetime at midnight
  (\<^verbatim>\<open>v.time() == datetime.time(0, 0, 0)\<close>, microseconds included) and a date give a
  DATE literal, another datetime a TIMESTAMP literal; None gives NULL.
\<close>

fun fmt_literal :: "key_value \<Rightarrow> string" where
  "fmt_literal (VStr s) = [sq] @ concat (map (\<lambda>c. if c = sq then [sq, sq] else [c]) s) @ [sq]"
| "fmt_literal (VDateTime y mo d h mi s us) =
     (if h = 0 \<and> mi = 0 \<and> s = 0 \<and> us = 0
      then ''DATE '' @ [sq] @ fmt_ymd y mo d @ [sq]
      else ''TIMESTAMP '' @ [sq] @ fmt_ymd y mo d @ '' '' @ fmt_hms h mi s @ [sq])"
| "fmt_literal (VDate y mo d) = ''DATE '' @ [sq] @ fmt_ymd y mo d @ [sq]"
| "fmt_literal VNone = ''NULL''"
| "fmt_literal (VInt i) = str_int i"

section \<open>Single-column slicing\<close>

text \<open>
  The first loop of \<^verbatim>\<open>make_single_pk_slices_from_bounds\<close>: a value is appended
  unless it equals the last one kept.
\<close>

fun dedup_loop :: "'a list \<Rightarrow> 'a list \<Rightarrow> 'a list" where
  "dedup_loop dedup [] = dedup"
| "dedup_loop dedup (b # bounds) =
     dedup_loop (if dedup = [] \<or> b \<noteq> last dedup then dedup @ [b] else dedup) bounds"

text \<open>Afterwards a single value is doubled: \<^verbatim>\<open>if len(dedup) == 1: dedup.append(dedup[0])\<close>.\<close>

definition dedup_bounds :: "'a list \<Rightarrow> 'a list" where
  "dedup_bounds bounds =
     (let dedup = dedup_loop [] bounds
      in if length dedup = 1 then dedup @ [dedup ! 0] else dedup)"

definition make_single_pk_slices_from_bounds :: "string \<Rightarrow> key_value list \<Rightarrow> string list" where
  "make_single_pk_slices_from_bounds col bounds =
     (let dedup = dedup_bounds bounds
      in map (\<lambda>i. let lo = dedup ! i; hi = dedup ! (i + 1)
                   in if i = length dedup - 2
                      then col @ '' >= '' @ fmt_literal lo @ '' AND '' @ col @ '' <= '' @ fmt_literal hi
                      else col @ '' >= '' @ fmt_literal lo @ '' AND '' @ col @ '' < '' @ fmt_literal hi)
           [0 ..< length dedup - 1])"

section \<open>Lexicographic slicing for a composite key\<close>

text \<open>\<^verbatim>\<open>" AND ".join(parts)\<close>\<close>

fun join_and :: "string list \<Rightarrow> string" where
  "join_and [] = []"
| "join_and [p] = p"
| "join_and (p # ps) = p @ '' AND '' @ join_and ps"

text \<open>
  \<^verbatim>\<open>_ge_segments\<close> and \<^verbatim>\<open>_le_segments\<close>. \<^verbatim>\<open>cols[0]\<close> on an empty column list
  and \<^verbatim>\<open>bounds[0]\<close> on an exhausted bound tuple raise IndexError.
\<close>

fun ge_segments :: "string list \<Rightarrow> key_value list \<Rightarrow> error + string list list" where
  "ge_segments [c] (b # bounds) = Inr [[c @ '' >= '' @ fmt_literal b]]"
| "ge_segments (head # tail) (b # bounds) =
     (case ge_segments tail bounds of
        Inl e \<Rightarrow> Inl e
      | Inr subs \<Rightarrow>
          Inr (map (\<lambda>sub. (head @ '' = '' @ fmt_literal b) # sub) subs
               @ [[head @ '' > '' @ fmt_literal b]]))"
| "ge_segments _ _ = Inl IndexError"

fun le_segments :: "string list \<Rightarrow> key_value list \<Rightarrow> bool \<Rightarrow> error + string list list" where
  "le_segments [c] (b # bounds) inclusive =
     Inr [[c @ '' '' @ (if inclusive then ''<='' else ''<'') @ '' '' @ fmt_literal b]]"
| "le_segments (head # tail) (b # bounds) inclusive =
     (case le_segments tail bounds inclusive of
        Inl e \<Rightarrow> Inl e
      | Inr subs \<Rightarrow>
          Inr ([[head @ '' < '' @ fmt_literal b]]
               @ map (\<lambda>sub. (head @ '' = '' @ fmt_literal b) # sub) subs))"
| "le_segments _ _ _ = Inl IndexError"

fun build_composite_slice_wheres ::
  "string list \<Rightarrow> key_value list \<Rightarrow> key_value list \<Rightarrow> bool \<Rightarrow> error + string list" where
  "build_composite_slice_wheres [c] (l # left) (r # right) is_last =
     Inr [c @ '' >= '' @ fmt_literal l @ '' AND '' @ c @ '' ''
          @ (if is_last then ''<='' else ''<'') @ '' '' @ fmt_literal r]"
| "build_composite_slice_wheres (c # cols) (l # left) (r # right) is_last =
     (if l = r then
        (case build_composite_slice_wheres cols left right is_last of
           Inl e \<Rightarrow> Inl e
         | Inr tail_wheres \<Rightarrow>
             Inr (map (\<lambda>w. c @ '' = '' @ fmt_literal l @ '' AND '' @ w) tail_wheres))
      else
        (case ge_segments cols left of
           Inl e \<Rightarrow> Inl e
         | Inr lower \<Rightarrow>
             (case le_segments cols right is_last of
                Inl e \<Rightarrow> Inl e
              | Inr upper \<Rightarrow>
                  Inr (map (\<lambda>seg. join_and ((c @ '' = '' @ fmt_literal l) # seg)) lower
                       @ [c @ '' > '' @ fmt_literal l @ '' AND '' @ c @ '' < '' @ fmt_literal r]
                       @ map (\<lambda>seg. join_and ((c @ '' = '' @ fmt_literal r) # seg)) upper))))"
| "build_composite_slice_wheres _ _ _ _ = Inl IndexError"

section \<open>The statements of one run\<close>

text \<open>
  The intervals \<^verbatim>\<open>generate_slice_sql\<close> builds from the boundary rows:
  \<^verbatim>\<open>(boundaries[i], boundaries[i + 1], i == len(boundaries) - 2)\<close> for
  \<^verbatim>\<open>i in range(len(boundaries) - 1)\<close>.
\<close>

definition slice_bounds :: "'a list \<Rightarrow> ('a \<times> 'a \<times> bool) list" where
  "slice_bounds boundaries =
     map (\<lambda>i. (boundaries ! i, boundaries ! (i + 1), i = length boundaries - 2))
       [0 ..< length boundaries - 1]"

text \<open>A loop that extends the result list and stops at the first exception.\<close>

fun collect :: "('a \<Rightarrow> error + 'b list) \<Rightarrow> 'a list \<Rightarrow> error + 'b list" where
  "collect f [] = Inr []"
| "collect f (x # xs) =
     (case f x of
        Inl e \<Rightarrow> Inl e
      | Inr ys \<Rightarrow> (case collect f xs of Inl e \<Rightarrow> Inl e | Inr zs \<Rightarrow> Inr (ys @ zs)))"

text \<open>\<^verbatim>\<open>[b[0] for b in boundaries]\<close>\<close>

fun first_components :: "'v list list \<Rightarrow> error + 'v list" where
  "first_components [] = Inr []"
| "first_components ([] # boundaries) = Inl IndexError"
| "first_components ((x # b) # boundaries) =
     (case first_components boundaries of Inl e \<Rightarrow> Inl e | Inr xs \<Rightarrow> Inr (x # xs))"

text \<open>
  The WHERE conditions of a run, in the order \<^verbatim>\<open>generate_slice_sql\<close> appends them:
  the single-column slices for one key column, the composite decomposition of every
  interval otherwise.
\<close>

definition slice_wheres :: "string list \<Rightarrow> key_value list list \<Rightarrow> error + string list" where
  "slice_wheres pk_cols boundaries =
     (if length pk_cols = 1 then
        (case first_components boundaries of
           Inl e \<Rightarrow> Inl e
         | Inr firsts \<Rightarrow> Inr (make_single_pk_slices_from_bounds (pk_cols ! 0) firsts))
      else
        collect (\<lambda>(lo, hi, is_last). build_composite_slice_wheres pk_cols lo hi is_last)
          (slice_bounds boundaries))"

section \<open>Boundary sampling\<close>

text \<open>
  \<^verbatim>\<open>total / k\<close> is Python's true division of two ints: the quotient rounded to the
  nearest double, ties to the even mantissa. A positive double is \<open>m * 2 ^ e\<close> with a
  mantissa \<open>m\<close> of at most 53 bits; for a quotient \<open>q\<close> the exponent is
  \<open>\<lfloor>log\<^sub>2 q\<rfloor> - 52\<close>, and \<open>- 1074\<close> at least (the subnormal range).
\<close>

text \<open>The integer nearest to \<open>a / b\<close> for \<open>b > 0\<close>, a tie going to the even one.\<close>

definition round_half_even :: "int \<Rightarrow> int \<Rightarrow> int" where
  "round_half_even a b =
     (let d = a div b; r = a mod b
      in if 2 * r < b then d else if b < 2 * r then d + 1 else if even d then d else d + 1)"

text \<open>\<open>\<lfloor>log\<^sub>2 (a / b)\<rfloor>\<close> for positive \<open>a\<close> and \<open>b\<close>, from their bit lengths.\<close>

definition floor_log2 :: "int \<Rightarrow> int \<Rightarrow> int" where
  "floor_log2 a b =
     (let d = bitlen a - bitlen b
      in if 0 \<le> d then (if b * 2 ^ nat d \<le> a then d else d - 1)
         else (if b \<le> a * 2 ^ nat (- d) then d else d - 1))"

text \<open>The double nearest to \<open>a / b\<close> for positive \<open>a\<close> and \<open>b\<close>: mantissa and exponent.\<close>

definition float_quot :: "int \<Rightarrow> int \<Rightarrow> int \<times> int" where
  "float_quot a b =
     (let e = max (floor_log2 a b - 52) (- 1074)
      in (if 0 \<le> e then round_half_even a (b * 2 ^ nat e)
          else round_half_even (a * 2 ^ nat (- e)) b, e))"

text \<open>
  \<^verbatim>\<open>math.ceil(a / b)\<close>: the division raises for a zero divisor and for a quotient that
  rounds to \<open>2 ^ 1024\<close> or more; the ceiling of the double is an exact integer. A
  negative quotient is the negated double of the absolute values.
\<close>

definition ceil_truediv :: "int \<Rightarrow> int \<Rightarrow> error + int" where
  "ceil_truediv a b =
     (if b = 0 then Inl ZeroDivisionError
      else if a = 0 then Inr 0
      else (case float_quot \<bar>a\<bar> \<bar>b\<bar> of (m, e) \<Rightarrow>
              if 0 \<le> e \<and> 2 ^ 1024 \<le> m * 2 ^ nat e then Inl OverflowError
              else if (a < 0) = (b < 0)
                then Inr (if 0 \<le> e then m * 2 ^ nat e else - ((- m) div 2 ^ nat (- e)))
                else Inr (- (if 0 \<le> e then m * 2 ^ nat e else m div 2 ^ nat (- e)))))"

text \<open>\<^verbatim>\<open>step = max(1, math.ceil(total / k))\<close>\<close>

definition fetch_step :: "int \<Rightarrow> int \<Rightarrow> error + int" where
  "fetch_step total_rows k =
     (case ceil_truediv total_rows k of Inl e \<Rightarrow> Inl e | Inr c \<Rightarrow> Inr (max 1 c))"

text \<open>\<^verbatim>\<open>rns = list({1 + i * step for i in range(k)} | {total}); rns.sort()\<close>\<close>

definition fetch_rns :: "int \<Rightarrow> int \<Rightarrow> int \<Rightarrow> int list" where
  "fetch_rns step total_rows k =
     sort (remdups (map (\<lambda>i. 1 + i * step) [0 .. k - 1] @ [total_rows]))"

text \<open>
  The table behind the connection: the key columns the catalog lookup returns, and the
  key tuples of the rows in the order of \<^verbatim>\<open>ORDER BY\<close> over the key columns, so that
  the row with \<^verbatim>\<open>ROW_NUMBER\<close> \<open>r\<close> stands at index \<open>r - 1\<close>.
\<close>

record database =
  pk_columns :: "string list"
  key_rows :: "key_value list list"

text \<open>The queries a run sends, in order.\<close>

datatype query = PkLookup | CountRows | SampleRows "int list"

text \<open>\<^verbatim>\<open>WHERE rn IN (rns) ORDER BY rn\<close>\<close>

definition select_ranks :: "'a list \<Rightarrow> int list \<Rightarrow> 'a list" where
  "select_ranks rows rns =
     map (\<lambda>r. rows ! nat (r - 1)) (filter (\<lambda>r. 1 \<le> r \<and> r \<le> int (length rows)) rns)"

definition fetch_pk_boundaries ::
  "database \<Rightarrow> int \<Rightarrow> query list \<times> (error + key_value list list)" where
  "fetch_pk_boundaries db k =
     (let total_rows = int (length (key_rows db)) in
      if total_rows = 0 then ([CountRows], Inr [])
      else (case fetch_step total_rows k of
              Inl e \<Rightarrow> ([CountRows], Inl e)
            | Inr step \<Rightarrow>
                (let rns = fetch_rns step total_rows k
                 in ([CountRows, SampleRows rns], Inr (select_ranks (key_rows db) rns)))))"

section \<open>The generator\<close>

record table_spec =
  schema :: "string option"
  name :: string
  qualified_name :: string

definition parse_table :: "string \<Rightarrow> table_spec" where
  "parse_table raw =
     (if CHR ''.'' \<notin> set raw then \<lparr>schema = None, name = raw, qualified_name = raw\<rparr>
      else (let s = takeWhile (\<lambda>c. c \<noteq> CHR ''.'') raw; n = drop (length s + 1) raw
            in \<lparr>schema = Some s, name = n, qualified_name = s @ ''.'' @ n\<rparr>))"

text \<open>Whether the imports of the two drivers succeeded.\<close>

record drivers =
  psycopg2_installed :: bool
  cx_Oracle_installed :: bool

text \<open>
  \<^verbatim>\<open>generate_slice_sql\<close>, returning the queries sent next to the statements or the
  exception raised.
\<close>

definition generate_slice_sql ::
  "drivers \<Rightarrow> database \<Rightarrow> string \<Rightarrow> string \<Rightarrow> int \<Rightarrow> query list \<times> (error + string list)" where
  "generate_slice_sql drv db dbtype table k =
     (let t_spec = parse_table table in
      if dbtype = ''pg'' \<and> \<not> psycopg2_installed drv
        then ([], Inl (RuntimeError ''psycopg2 is not installed''))
      else if dbtype \<noteq> ''pg'' \<and> dbtype = ''ora'' \<and> \<not> cx_Oracle_installed drv
        then ([], Inl (RuntimeError ''cx_Oracle is not installed''))
      else if dbtype \<noteq> ''pg'' \<and> dbtype \<noteq> ''ora''
        then ([], Inl (ValueError (''dbtype must be '' @ [sq] @ ''pg'' @ [sq] @ '' or '' @ [sq] @ ''ora'' @ [sq])))
      else (let pk_cols = pk_columns db in
        if pk_cols = [] then ([PkLookup], Inl (RuntimeError ''Primary key not found''))
        else (case fetch_pk_boundaries db k of
                (qs, Inl e) \<Rightarrow> (PkLookup # qs, Inl e)
              | (qs, Inr boundaries) \<Rightarrow>
                  if boundaries = [] then (PkLookup # qs, Inr [])
                  else (case slice_wheres pk_cols boundaries of
                          Inl e \<Rightarrow> (PkLookup # qs, Inl e)
                        | Inr conds \<Rightarrow>
                            (PkLookup # qs,
                             Inr (map (\<lambda>cond. ''SELECT * FROM '' @ qualified_name t_spec
                                               @ '' WHERE '' @ cond @ '';'') conds))))))"

section \<open>Predicates as conjunctions of comparisons\<close>

text \<open>
  Every string the partitioners build is a conjunction of comparisons of a column with a
  literal. The functions below build the same conjunctions as terms, for any type of key
  value; \<open>render\<close> gives the text back.
\<close>

datatype cmp_op = Eq | Lt | Le | Gt | Ge

datatype 'v comparison = Cmp (cmp_col: string) (cmp_rel: cmp_op) (cmp_val: 'v)

fun op_text :: "cmp_op \<Rightarrow> string" where
  "op_text Eq = ''=''"
| "op_text Lt = ''<''"
| "op_text Le = ''<=''"
| "op_text Gt = ''>''"
| "op_text Ge = ''>=''"

fun render_cmp :: "('v \<Rightarrow> string) \<Rightarrow> 'v comparison \<Rightarrow> string" where
  "render_cmp fmt (Cmp c opr v) = c @ '' '' @ op_text opr @ '' '' @ fmt v"

definition render :: "('v \<Rightarrow> string) \<Rightarrow> 'v comparison list \<Rightarrow> string" where
  "render fmt cmps = join_and (map (render_cmp fmt) cmps)"

definition single_conjs :: "string \<Rightarrow> 'v list \<Rightarrow> 'v comparison list list" where
  "single_conjs col bounds =
     (let dedup = dedup_bounds bounds
      in map (\<lambda>i. let lo = dedup ! i; hi = dedup ! (i + 1)
                   in if i = length dedup - 2
                      then [Cmp col Ge lo, Cmp col Le hi]
                      else [Cmp col Ge lo, Cmp col Lt hi])
           [0 ..< length dedup - 1])"

fun ge_conjs :: "string list \<Rightarrow> 'v list \<Rightarrow> error + 'v comparison list list" where
  "ge_conjs [c] (b # bounds) = Inr [[Cmp c Ge b]]"
| "ge_conjs (head # tail) (b # bounds) =
     (case ge_conjs tail bounds of
        Inl e \<Rightarrow> Inl e
      | Inr subs \<Rightarrow> Inr (map (\<lambda>sub. Cmp head Eq b # sub) subs @ [[Cmp head Gt b]]))"
| "ge_conjs _ _ = Inl IndexError"

fun le_conjs :: "string list \<Rightarrow> 'v list \<Rightarrow> bool \<Rightarrow> error + 'v comparison list list" where
  "le_conjs [c] (b # bounds) inclusive = Inr [[Cmp c (if inclusive then Le else Lt) b]]"
| "le_conjs (head # tail) (b # bounds) inclusive =
     (case le_conjs tail bounds inclusive of
        Inl e \<Rightarrow> Inl e
      | Inr subs \<Rightarrow> Inr ([[Cmp head Lt b]] @ map (\<lambda>sub. Cmp head Eq b # sub) subs))"
| "le_conjs _ _ _ = Inl IndexError"

fun composite_conjs ::
  "string list \<Rightarrow> 'v list \<Rightarrow> 'v list \<Rightarrow> bool \<Rightarrow> error + 'v comparison list list" where
  "composite_conjs [c] (l # left) (r # right) is_last =
     Inr [[Cmp c Ge l, Cmp c (if is_last then Le else Lt) r]]"
| "composite_conjs (c # cols) (l # left) (r # right) is_last =
     (if l = r then
        (case composite_conjs cols left right is_last of
           Inl e \<Rightarrow> Inl e
         | Inr tail_wheres \<Rightarrow> Inr (map (\<lambda>w. Cmp c Eq l # w) tail_wheres))
      else
        (case ge_conjs cols left of
           Inl e \<Rightarrow> Inl e
         | Inr lower \<Rightarrow>
             (case le_conjs cols right is_last of
                Inl e \<Rightarrow> Inl e
              | Inr upper \<Rightarrow>
                  Inr (map (\<lambda>seg. Cmp c Eq l # seg) lower
                       @ [[Cmp c Gt l, Cmp c Lt r]]
                       @ map (\<lambda>seg. Cmp c Eq r # seg) upper))))"
| "composite_conjs _ _ _ _ = Inl IndexError"

definition slice_conjs :: "string list \<Rightarrow> 'v list list \<Rightarrow> error + 'v comparison list list" where
  "slice_conjs pk_cols boundaries =
     (if length pk_cols = 1 then
        (case first_components boundaries of
           Inl e \<Rightarrow> Inl e
         | Inr firsts \<Rightarrow> Inr (single_conjs (pk_cols ! 0) firsts))
      else
        collect (\<lambda>(lo, hi, is_last). composite_conjs pk_cols lo hi is_last)
          (slice_bounds boundaries))"

section \<open>How many predicates an interval expands into\<close>

lemma ge_segments_length:
  "cols \<noteq> [] \<Longrightarrow> length cols \<le> length bounds \<Longrightarrow>
   \<exists>gs. ge_segments cols bounds = Inr gs \<and> length gs = length cols"
proof (induction cols bounds rule: ge_segments.induct)
  case (2 head v va b bounds)
  then show ?case by (cases bounds) auto
qed auto

lemma le_segments_length:
  "cols \<noteq> [] \<Longrightarrow> length cols \<le> length bounds \<Longrightarrow>
   \<exists>ls. le_segments cols bounds inclusive = Inr ls \<and> length ls = length cols"
proof (induction cols bounds inclusive rule: le_segments.induct)
  case (2 head v va b bounds inclusive)
  then show ?case by (cases bounds) auto
qed auto

lemma build_length_exact:
  "length left = length cols \<Longrightarrow> length right = length cols \<Longrightarrow> j < length cols \<Longrightarrow>
   take j left = take j right \<Longrightarrow> left ! j \<noteq> right ! j \<Longrightarrow>
   \<exists>ws. build_composite_slice_wheres cols left right is_last = Inr ws
        \<and> length ws = 2 * (length cols - j) - 1"
proof (induction cols left right is_last arbitrary: j rule: build_composite_slice_wheres.induct)
  case (1 c l left r right is_last)
  then show ?case by simp
next
  case (2 c v va l left r right is_last)
  show ?case
  proof (cases j)
    case 0
    with 2 have ne: "l \<noteq> r" by simp
    obtain gs where gs: "ge_segments (v # va) left = Inr gs" "length gs = length (v # va)"
      using ge_segments_length[of "v # va" left] 2 by auto
    obtain ls where ls: "le_segments (v # va) right is_last = Inr ls" "length ls = length (v # va)"
      using le_segments_length[of "v # va" right] 2 by auto
    show ?thesis using ne gs ls 0 by simp
  next
    case (Suc j')
    with 2 have eq: "l = r" and tk: "take j' left = take j' right" and nth: "left ! j' \<noteq> right ! j'"
      and j': "j' < length (v # va)" by auto
    from 2 have len: "length left = length (v # va)" "length right = length (v # va)" by auto
    from "2.IH"(1)[OF eq len j' tk nth] obtain ws where
      "build_composite_slice_wheres (v # va) left right is_last = Inr ws"
      "length ws = 2 * (length (v # va) - j') - 1" by blast
    then show ?thesis using eq Suc by simp
  qed
qed auto

lemma build_length_bound:
  "cols \<noteq> [] \<Longrightarrow> length left = length cols \<Longrightarrow> length right = length cols \<Longrightarrow>
   \<exists>ws. build_composite_slice_wheres cols left right is_last = Inr ws
        \<and> length ws \<le> 2 * (length cols - 1) + 1"
proof (induction cols left right is_last rule: build_composite_slice_wheres.induct)
  case (1 c l left r right is_last)
  then show ?case by simp
next
  case (2 c v va l left r right is_last)
  from 2 have len: "length left = length (v # va)" "length right = length (v # va)" by auto
  show ?case
  proof (cases "l = r")
    case True
    from "2.IH"(1)[OF True _ len] obtain ws where
      "build_composite_slice_wheres (v # va) left right is_last = Inr ws"
      "length ws \<le> 2 * (length (v # va) - 1) + 1" by auto
    then show ?thesis using True by simp
  next
    case False
    obtain gs where gs: "ge_segments (v # va) left = Inr gs" "length gs = length (v # va)"
      using ge_segments_length[of "v # va" left] len by auto
    obtain ls where ls: "le_segments (v # va) right is_last = Inr ls" "length ls = length (v # va)"
      using le_segments_length[of "v # va" right] len by auto
    show ?thesis using False gs ls by simp
  qed
qed auto

text \<open>
  Claim C10. For a non-empty column list and a bound tuple that has a component for every
  column, the lower-bound helper and the upper-bound helper each return as many segments
  as there are columns, whatever the bound values; and an interval whose bound tuples
  agree on their first \<open>j\<close> components and differ at the next one expands into exactly
  \<open>2 * (n - j) - 1\<close> predicates.
\<close>

theorem segment_counts_exact:
  assumes "cols \<noteq> []" and "length cols \<le> length bounds"
  shows "(\<exists>gs. ge_segments cols bounds = Inr gs \<and> length gs = length cols)
       \<and> (\<exists>ls. le_segments cols bounds inclusive = Inr ls \<and> length ls = length cols)
       \<and> (\<forall>left right j is_last.
             length left = length cols \<and> length right = length cols \<and> j < length cols
             \<and> take j left = take j right \<and> left ! j \<noteq> right ! j
             \<longrightarrow> (\<exists>ws. build_composite_slice_wheres cols left right is_last = Inr ws
                       \<and> length ws = 2 * (length cols - j) - 1))"
  using assms ge_segments_length le_segments_length build_length_exact by blast

theorem segment_counts_exact_witness:
  "(\<exists>gs. ge_segments [''A'', ''B'', ''C''] [VInt 1, VInt 2, VInt 3] = Inr gs \<and> length gs = 3)
   \<and> (\<exists>ls. le_segments [''A'', ''B'', ''C''] [VInt 1, VInt 2, VInt 3] True = Inr ls \<and> length ls = 3)
   \<and> (\<exists>ws. build_composite_slice_wheres [''A'', ''B'', ''C'']
              [VInt 1, VInt 2, VInt 3] [VInt 1, VInt 5, VInt 6] False = Inr ws
           \<and> length ws = 3)"
proof -
  have c: "[''A'', ''B'', ''C''] \<noteq> []"
    and l: "length [''A'', ''B'', ''C''] \<le> length [VInt 1, VInt 2, VInt 3]" by simp_all
  note t = segment_counts_exact[OF c l, of True]
  from t have g: "\<exists>gs. ge_segments [''A'', ''B'', ''C''] [VInt 1, VInt 2, VInt 3] = Inr gs \<and> length gs = length [''A'', ''B'', ''C'']"
    by blast
  from t have le: "\<exists>ls. le_segments [''A'', ''B'', ''C''] [VInt 1, VInt 2, VInt 3] True = Inr ls \<and> length ls = length [''A'', ''B'', ''C'']"
    by blast
  from t have "length [VInt 1, VInt 2, VInt 3] = length [''A'', ''B'', ''C'']
      \<and> length [VInt 1, VInt 5, VInt 6] = length [''A'', ''B'', ''C''] \<and> 1 < length [''A'', ''B'', ''C'']
      \<and> take 1 [VInt 1, VInt 2, VInt 3] = take 1 [VInt 1, VInt 5, VInt 6]
      \<and> [VInt 1, VInt 2, VInt 3] ! 1 \<noteq> [VInt 1, VInt 5, VInt 6] ! 1
      \<longrightarrow> (\<exists>ws. build_composite_slice_wheres [''A'', ''B'', ''C''] [VInt 1, VInt 2, VInt 3] [VInt 1, VInt 5, VInt 6] False = Inr ws
               \<and> length ws = 2 * (length [''A'', ''B'', ''C''] - 1) - 1)"
    by blast
  then have b: "\<exists>ws. build_composite_slice_wheres [''A'', ''B'', ''C''] [VInt 1, VInt 2, VInt 3] [VInt 1, VInt 5, VInt 6] False = Inr ws
               \<and> length ws = 2 * (length [''A'', ''B'', ''C''] - 1) - 1"
    by simp
  from g le b show ?thesis by simp
qed

text \<open>
  Claim C6. An interval over \<open>n\<close> key columns expands, without an exception, into at
  most \<open>2 * (n - 1) + 1\<close> predicates; when the leading components differ, the lower and
  the upper band have at most \<open>n - 1\<close> segments each and the middle band is the one
  predicate between them.
\<close>

theorem composite_predicate_bound:
  assumes "cols \<noteq> []" and "length left = length cols" and "length right = length cols"
  shows "\<exists>ws. build_composite_slice_wheres cols left right is_last = Inr ws
           \<and> length ws \<le> 2 * (length cols - 1) + 1
           \<and> (2 \<le> length cols \<and> hd left \<noteq> hd right \<longrightarrow>
                (\<exists>lower upper.
                   ge_segments (tl cols) (tl left) = Inr lower
                 \<and> le_segments (tl cols) (tl right) is_last = Inr upper
                 \<and> length lower \<le> length cols - 1 \<and> length upper \<le> length cols - 1
                 \<and> length ws = length lower + 1 + length upper))"
proof -
  from build_length_bound[OF assms] obtain ws where
    ws: "build_composite_slice_wheres cols left right is_last = Inr ws"
        "length ws \<le> 2 * (length cols - 1) + 1" by blast
  have "\<exists>lower upper.
          ge_segments (tl cols) (tl left) = Inr lower
        \<and> le_segments (tl cols) (tl right) is_last = Inr upper
        \<and> length lower \<le> length cols - 1 \<and> length upper \<le> length cols - 1
        \<and> length ws = length lower + 1 + length upper"
    if two: "2 \<le> length cols" and ne: "hd left \<noteq> hd right"
  proof -
    from two obtain c c' cs where cols: "cols = c # c' # cs"
      by (cases cols; cases "tl cols") auto
    from assms cols obtain l ls where left: "left = l # ls" by (cases left) auto
    from assms cols obtain r rs where right: "right = r # rs" by (cases right) auto
    from assms cols left right have len: "length (c' # cs) \<le> length ls" "length (c' # cs) \<le> length rs"
      by auto
    obtain gs where gs: "ge_segments (c' # cs) ls = Inr gs" "length gs = length (c' # cs)"
      using ge_segments_length[OF _ len(1)] by auto
    obtain us where us: "le_segments (c' # cs) rs is_last = Inr us" "length us = length (c' # cs)"
      using le_segments_length[OF _ len(2)] by auto
    from ws(1) ne gs us have "length ws = length gs + 1 + length us"
      by (auto simp: cols left right)
    with gs us show ?thesis by (auto simp: cols left right)
  qed
  with ws show ?thesis by blast
qed

theorem composite_predicate_bound_witness:
  "\<exists>ws. build_composite_slice_wheres [''A'', ''B'', ''C'']
           [VInt 1, VInt 2, VInt 3] [VInt 4, VInt 5, VInt 6] False = Inr ws
      \<and> length ws \<le> 5
      \<and> (\<exists>lower upper.
            ge_segments [''B'', ''C''] [VInt 2, VInt 3] = Inr lower
          \<and> le_segments [''B'', ''C''] [VInt 5, VInt 6] False = Inr upper
          \<and> length lower \<le> 2 \<and> length upper \<le> 2
          \<and> length ws = length lower + 1 + length upper)"
  using composite_predicate_bound[of "[''A'', ''B'', ''C'']" "[VInt 1, VInt 2, VInt 3]"
      "[VInt 4, VInt 5, VInt 6]" False]
  by simp

section \<open>Errors and the empty table\<close>

text \<open>
  Claim C8. When the catalog lookup returns no key column (for a supported dialect whose
  driver is installed), the generator raises the error \<^verbatim>\<open>Primary key not found\<close>;
  the only query sent is the catalog lookup, neither the row count nor the ranked sample
  is asked for, and no statements are returned.
\<close>

theorem no_primary_key_raises:
  assumes "pk_columns db = []"
    and "dbtype = ''pg'' \<and> psycopg2_installed drv \<or> dbtype = ''ora'' \<and> cx_Oracle_installed drv"
  shows "generate_slice_sql drv db dbtype table k
           = ([PkLookup], Inl (RuntimeError ''Primary key not found''))
       \<and> CountRows \<notin> set (fst (generate_slice_sql drv db dbtype table k))
       \<and> (\<forall>rns. SampleRows rns \<notin> set (fst (generate_slice_sql drv db dbtype table k)))
       \<and> (\<forall>sqls. snd (generate_slice_sql drv db dbtype table k) \<noteq> Inr sqls)"
proof -
  have "generate_slice_sql drv db dbtype table k
           = ([PkLookup], Inl (RuntimeError ''Primary key not found''))"
    using assms by (auto simp: generate_slice_sql_def Let_def)
  then show ?thesis by simp
qed

theorem no_primary_key_raises_witness:
  "generate_slice_sql \<lparr>psycopg2_installed = True, cx_Oracle_installed = False\<rparr>
     \<lparr>pk_columns = [], key_rows = [[VInt 1], [VInt 2]]\<rparr> ''pg'' ''orders'' 8
   = ([PkLookup], Inl (RuntimeError ''Primary key not found''))"
  using no_primary_key_raises[of "\<lparr>pk_columns = [], key_rows = [[VInt 1], [VInt 2]]\<rparr>" "''pg''"
      "\<lparr>psycopg2_installed = True, cx_Oracle_installed = False\<rparr>" "''orders''" 8]
  by simp

text \<open>
  Claim C9. When the table has no rows, the sampler returns the empty boundary list
  after the row count alone, and the generator returns the empty statement list; nothing
  is raised, whatever the slice count.
\<close>

theorem empty_table_no_error:
  assumes "key_rows db = []" and "pk_columns db \<noteq> []"
    and "dbtype = ''pg'' \<and> psycopg2_installed drv \<or> dbtype = ''ora'' \<and> cx_Oracle_installed drv"
  shows "fetch_pk_boundaries db k = ([CountRows], Inr [])
       \<and> generate_slice_sql drv db dbtype table k = ([PkLookup, CountRows], Inr [])"
proof -
  have f: "fetch_pk_boundaries db k = ([CountRows], Inr [])"
    using assms(1) by (simp add: fetch_pk_boundaries_def)
  have "generate_slice_sql drv db dbtype table k = ([PkLookup, CountRows], Inr [])"
    using assms(2,3) by (auto simp: generate_slice_sql_def Let_def f)
  with f show ?thesis by simp
qed

theorem empty_table_no_error_witness:
  "fetch_pk_boundaries \<lparr>pk_columns = [''A'', ''B''], key_rows = []\<rparr> 0 = ([CountRows], Inr [])
   \<and> generate_slice_sql \<lparr>psycopg2_installed = False, cx_Oracle_installed = True\<rparr>
       \<lparr>pk_columns = [''A'', ''B''], key_rows = []\<rparr> ''ora'' ''s.t'' 0
     = ([PkLookup, CountRows], Inr [])"
  using empty_table_no_error[of "\<lparr>pk_columns = [''A'', ''B''], key_rows = []\<rparr>" "''ora''"
      "\<lparr>psycopg2_installed = False, cx_Oracle_installed = True\<rparr>" 0 "''s.t''"]
  by simp

section \<open>The single-column partitioner\<close>

lemma dedup_loop_acc:
  "dedup_loop acc bs = (if acc = [] then remdups_adj bs else butlast acc @ remdups_adj (last acc # bs))"
proof (induction bs arbitrary: acc)
  case Nil
  then show ?case by simp
next
  case (Cons b bs)
  show ?case by (simp add: Cons.IH butlast_append)
qed

lemma dedup_loop_remdups_adj: "dedup_loop [] bs = remdups_adj bs"
  by (simp add: dedup_loop_acc)

lemma dedup_bounds_distinct_adj:
  assumes "distinct_adj bs" and "length bs \<noteq> 1"
  shows "dedup_bounds bs = bs"
  using assms by (simp add: dedup_bounds_def dedup_loop_remdups_adj distinct_adj_altdef)

text \<open>
  Claim C5. For boundary values with no two neighbours equal (as in every ordered,
  deduplicated list) and at least two of them, the single-column partitioner emits one
  predicate per consecutive pair, \<open>m - 1\<close> in all: \<^verbatim>\<open>col >= lo AND col < hi\<close> for
  every pair but the last and \<^verbatim>\<open>col >= lo AND col <= hi\<close> for the last. The second
  theorem is the scenario of the boundaries 1, 11, 21, 30 on the column ID.
\<close>

theorem single_key_predicates:
  assumes "distinct_adj bounds" and "2 \<le> length bounds"
  shows "length (make_single_pk_slices_from_bounds col bounds) = length bounds - 1
       \<and> (\<forall>i < length bounds - 1.
            make_single_pk_slices_from_bounds col bounds ! i =
              (if i = length bounds - 2
               then col @ '' >= '' @ fmt_literal (bounds ! i) @ '' AND ''
                    @ col @ '' <= '' @ fmt_literal (bounds ! (i + 1))
               else col @ '' >= '' @ fmt_literal (bounds ! i) @ '' AND ''
                    @ col @ '' < '' @ fmt_literal (bounds ! (i + 1))))"
proof -
  from assms have d: "dedup_bounds bounds = bounds"
    by (intro dedup_bounds_distinct_adj) auto
  show ?thesis
    by (simp add: make_single_pk_slices_from_bounds_def d Let_def)
qed

theorem single_key_predicates_witness:
  "distinct_adj [VInt 1, VInt 11, VInt 21, VInt 30]
   \<and> 2 \<le> length [VInt 1, VInt 11, VInt 21, VInt 30]
   \<and> make_single_pk_slices_from_bounds ''ID'' [VInt 1, VInt 11, VInt 21, VInt 30]
       = [''ID >= 1 AND ID < 11'', ''ID >= 11 AND ID < 21'', ''ID >= 21 AND ID <= 30'']"
proof -
  let ?bs = "[VInt 1, VInt 11, VInt 21, VInt 30]"
  let ?ws = "make_single_pk_slices_from_bounds ''ID'' ?bs"
  have a: "distinct_adj ?bs" by simp
  have b: "2 \<le> length ?bs" by simp
  have lits: "fmt_literal (VInt 1) = ''1''" "fmt_literal (VInt 11) = ''11''"
    "fmt_literal (VInt 21) = ''21''" "fmt_literal (VInt 30) = ''30''"
    by code_simp+
  note t = single_key_predicates[OF a b, of "''ID''"]
  from t have len: "length ?ws = 3" by simp
  from t have nth: "\<forall>i < 3. ?ws ! i =
              (if i = 2
               then ''ID'' @ '' >= '' @ fmt_literal (?bs ! i) @ '' AND ''
                    @ ''ID'' @ '' <= '' @ fmt_literal (?bs ! (i + 1))
               else ''ID'' @ '' >= '' @ fmt_literal (?bs ! i) @ '' AND ''
                    @ ''ID'' @ '' < '' @ fmt_literal (?bs ! (i + 1)))"
    by simp
  from nth have n0: "?ws ! 0 = ''ID >= 1 AND ID < 11''"
    by (simp add: lits del: fmt_literal.simps)
  from nth have "?ws ! 1 = ''ID'' @ '' >= '' @ fmt_literal (?bs ! 1) @ '' AND ''
                    @ ''ID'' @ '' < '' @ fmt_literal (?bs ! (1 + 1))"
    by (metis one_less_numeral_iff semiring_norm(77) num.distinct(1) one_eq_numeral_iff)
  then have n1: "?ws ! 1 = ''ID >= 11 AND ID < 21''"
    by (simp add: lits del: fmt_literal.simps)
  from nth have "?ws ! 2 = ''ID'' @ '' >= '' @ fmt_literal (?bs ! 2) @ '' AND ''
                    @ ''ID'' @ '' <= '' @ fmt_literal (?bs ! (2 + 1))"
    by simp
  then have n2: "?ws ! 2 = ''ID >= 21 AND ID <= 30''"
    by (simp add: lits del: fmt_literal.simps)
  from len obtain x y z where xyz: "?ws = [x, y, z]"
    by (auto simp: length_Suc_conv numeral_3_eq_3)
  from n0 n1 n2 have "[x, y, z] = [''ID >= 1 AND ID < 11'', ''ID >= 11 AND ID < 21'', ''ID >= 21 AND ID <= 30'']"
    unfolding xyz by simp
  with xyz a b show ?thesis by simp
qed

section \<open>The strings are the rendered conjunctions\<close>

text \<open>
  Each partitioner returns exactly the texts of the conjunctions its term-building
  counterpart returns, and fails exactly when that one fails.
\<close>

lemma ge_segments_render:
  "ge_segments cols bs = map_sum id (map (map (render_cmp fmt_literal))) (ge_conjs cols bs)"
proof (induction cols bs rule: ge_segments.induct)
  case (2 head v va b bounds)
  then show ?case by (cases "ge_conjs (v # va) bounds") (auto simp: comp_def)
qed auto

lemma le_segments_render:
  "le_segments cols bs inclusive
     = map_sum id (map (map (render_cmp fmt_literal))) (le_conjs cols bs inclusive)"
proof (induction cols bs inclusive rule: le_segments.induct)
  case (2 head v va b bounds inclusive)
  then show ?case by (cases "le_conjs (v # va) bounds inclusive") (auto simp: comp_def)
qed auto

lemma composite_conjs_nonempty:
  "composite_conjs cols left right is_last = Inr ps \<Longrightarrow> p \<in> set ps \<Longrightarrow> p \<noteq> []"
proof (induction cols left right is_last arbitrary: ps rule: composite_conjs.induct)
  case (2 c v va l left r right is_last)
  then show ?case by (auto split: if_splits sum.splits)
qed auto

lemma render_Cons:
  "p \<noteq> [] \<Longrightarrow> render fmt (a # p) = render_cmp fmt a @ '' AND '' @ render fmt p"
  by (cases p) (simp_all add: render_def)

lemma build_composite_slice_wheres_render:
  "build_composite_slice_wheres cols left right is_last
     = map_sum id (map (render fmt_literal)) (composite_conjs cols left right is_last)"
proof (induction cols left right is_last rule: build_composite_slice_wheres.induct)
  case (1 c l left r right is_last)
  then show ?case by (simp add: render_def)
next
  case (2 c v va l left r right is_last)
  show ?case
  proof (cases "l = r")
    case True
    show ?thesis
    proof (cases "composite_conjs (v # va) left right is_last")
      case (Inl e)
      with True 2 show ?thesis by simp
    next
      case (Inr ps)
      have "map (\<lambda>w. c @ '' = '' @ fmt_literal r @ '' AND '' @ w) (map (render fmt_literal) ps)
            = map (render fmt_literal) (map (\<lambda>w. Cmp c Eq r # w) ps)"
        using composite_conjs_nonempty[OF Inr] by (auto simp: render_Cons)
      with True 2 Inr show ?thesis by simp
    qed
  next
    case False
    then show ?thesis
      by (cases "ge_conjs (v # va) left"; cases "le_conjs (v # va) right is_last")
         (auto simp: ge_segments_render le_segments_render render_def comp_def)
  qed
qed auto

lemma make_single_pk_slices_from_bounds_render:
  "make_single_pk_slices_from_bounds col bounds = map (render fmt_literal) (single_conjs col bounds)"
  by (simp add: make_single_pk_slices_from_bounds_def single_conjs_def Let_def render_def)

lemma collect_map_sum:
  assumes "\<And>x. f x = map_sum id (map h) (g x)"
  shows "collect f xs = map_sum id (map h) (collect g xs)"
proof (induction xs)
  case (Cons x xs)
  then show ?case by (cases "g x"; cases "collect g xs") (auto simp: assms)
qed simp

lemma slice_wheres_render:
  "slice_wheres pk_cols boundaries
     = map_sum id (map (render fmt_literal)) (slice_conjs pk_cols boundaries)"
proof (cases "length pk_cols = 1")
  case True
  then show ?thesis
    by (cases "first_components boundaries")
       (auto simp: slice_wheres_def slice_conjs_def make_single_pk_slices_from_bounds_render)
next
  case False
  have "collect (\<lambda>(lo, hi, is_last). build_composite_slice_wheres pk_cols lo hi is_last) xs
        = map_sum id (map (render fmt_literal))
            (collect (\<lambda>(lo, hi, is_last). composite_conjs pk_cols lo hi is_last) xs)" for xs
    by (rule collect_map_sum) (auto simp: build_composite_slice_wheres_render)
  with False show ?thesis by (simp add: slice_wheres_def slice_conjs_def)
qed

section \<open>Substrings of the emitted text\<close>

lemma sublist_space:
  assumes "CHR '' '' \<notin> set w" and "sublist w (a @ CHR '' '' # b)"
  shows "sublist w a \<or> sublist w b"
proof -
  from assms(2) consider "sublist w a" | "sublist w (CHR '' '' # b)"
    | w1 w2 where "w = w1 @ w2" "suffix w1 a" "prefix w2 (CHR '' '' # b)"
    by (auto simp: sublist_append)
  then show ?thesis
  proof cases
    case 1
    then show ?thesis by simp
  next
    case 2
    then have "prefix w (CHR '' '' # b) \<or> sublist w b" by (simp add: sublist_Cons_right)
    then show ?thesis using assms(1) by (cases w) (auto simp: prefix_Cons)
  next
    case 3
    from 3(3) assms(1) 3(1) have "w2 = []" by (cases w2) (auto simp: prefix_Cons)
    with 3 show ?thesis by (auto simp: suffix_imp_sublist)
  qed
qed

lemma sublist_render_cmp:
  assumes "CHR '' '' \<notin> set w" and "sublist w (render_cmp fmt a)"
  shows "sublist w (cmp_col a) \<or> sublist w (op_text (cmp_rel a)) \<or> sublist w (fmt (cmp_val a))"
proof (cases a)
  case (Cmp c opr v)
  with assms(2) have "sublist w (c @ CHR '' '' # (op_text opr @ CHR '' '' # fmt v))" by simp
  from sublist_space[OF assms(1) this]
  have "sublist w c \<or> sublist w (op_text opr @ CHR '' '' # fmt v)" .
  then have "sublist w c \<or> sublist w (op_text opr) \<or> sublist w (fmt v)"
    using sublist_space[OF assms(1), of "op_text opr" "fmt v"] by blast
  with Cmp show ?thesis by simp
qed

lemma sublist_join_and:
  assumes "CHR '' '' \<notin> set w" and "w \<noteq> []" and "sublist w (join_and ps)"
  shows "sublist w ''AND'' \<or> (\<exists>p \<in> set ps. sublist w p)"
  using assms(3)
proof (induction ps rule: join_and.induct)
  case 1
  with assms(2) show ?case by simp
next
  case (2 p)
  then show ?case by simp
next
  case (3 p v va)
  then have "sublist w (p @ CHR '' '' # (''AND'' @ CHR '' '' # join_and (v # va)))" by simp
  from sublist_space[OF assms(1) this]
  have "sublist w p \<or> sublist w (''AND'' @ CHR '' '' # join_and (v # va))" .
  then have "sublist w p \<or> sublist w ''AND'' \<or> sublist w (join_and (v # va))"
    using sublist_space[OF assms(1), of "''AND''" "join_and (v # va)"] by blast
  with 3 show ?case by auto
qed

lemma keyword_not_in_operator:
  assumes "w = ''OR'' \<or> w = ''UNION''"
  shows "\<not> sublist w ''AND''" and "\<not> sublist w (op_text opr)"
    and "CHR '' '' \<notin> set w" and "w \<noteq> []"
  using assms by (cases opr; auto simp: sublist_Cons_right prefix_Cons)+

lemma sublist_render:
  assumes "w = ''OR'' \<or> w = ''UNION''" and "sublist w (render fmt p)"
  shows "\<exists>a \<in> set p. sublist w (cmp_col a) \<or> sublist w (fmt (cmp_val a))"
proof -
  note k = keyword_not_in_operator[OF assms(1)]
  from sublist_join_and[OF k(3) k(4) assms(2)[unfolded render_def]] k(1)
  obtain a where a: "a \<in> set p" "sublist w (render_cmp fmt a)" by auto
  from sublist_render_cmp[OF k(3) a(2)] k(2) a(1) show ?thesis by blast
qed

subsection \<open>The columns and literals of the comparisons\<close>

lemma ge_conjs_atoms:
  "ge_conjs cols bs = Inr gs \<Longrightarrow> g \<in> set gs \<Longrightarrow> a \<in> set g \<Longrightarrow>
   cmp_col a \<in> set cols \<and> cmp_val a \<in> set bs"
proof (induction cols bs arbitrary: gs g rule: ge_conjs.induct)
  case (2 head v va b bounds)
  then show ?case by (fastforce split: sum.splits)
qed auto

lemma le_conjs_atoms:
  "le_conjs cols bs inclusive = Inr gs \<Longrightarrow> g \<in> set gs \<Longrightarrow> a \<in> set g \<Longrightarrow>
   cmp_col a \<in> set cols \<and> cmp_val a \<in> set bs"
proof (induction cols bs inclusive arbitrary: gs g rule: le_conjs.induct)
  case (2 head v va b bounds inclusive)
  then show ?case by (fastforce split: sum.splits)
qed auto

lemma composite_conjs_atoms:
  "composite_conjs cols left right is_last = Inr ps \<Longrightarrow> p \<in> set ps \<Longrightarrow> a \<in> set p \<Longrightarrow>
   cmp_col a \<in> set cols \<and> cmp_val a \<in> set left \<union> set right"
proof (induction cols left right is_last arbitrary: ps p rule: composite_conjs.induct)
  case (1 c l left r right is_last)
  then show ?case by auto
next
  case (2 c v va l left r right is_last)
  show ?case
  proof (cases "l = r")
    case True
    with 2 show ?thesis by (fastforce split: sum.splits)
  next
    case False
    with "2.prems" obtain lower upper where
      lu: "ge_conjs (v # va) left = Inr lower" "le_conjs (v # va) right is_last = Inr upper"
      and ps: "ps = map (\<lambda>seg. Cmp c Eq l # seg) lower @ [[Cmp c Gt l, Cmp c Lt r]]
                    @ map (\<lambda>seg. Cmp c Eq r # seg) upper"
      by (auto split: sum.splits)
    from "2.prems"(2,3) ps show ?thesis
      using ge_conjs_atoms[OF lu(1)] le_conjs_atoms[OF lu(2)] by fastforce
  qed
qed auto

lemma dedup_bounds_set: "set (dedup_bounds bs) = set bs"
proof -
  have "set (remdups_adj bs) = set bs" by simp
  show ?thesis
  proof (cases "length (remdups_adj bs) = 1")
    case True
    then obtain x where x: "remdups_adj bs = [x]" by (auto simp: length_Suc_conv)
    then have "set bs = {x}" using \<open>set (remdups_adj bs) = set bs\<close> by simp
    with x True show ?thesis by (simp add: dedup_bounds_def dedup_loop_remdups_adj)
  next
    case False
    then show ?thesis by (simp add: dedup_bounds_def dedup_loop_remdups_adj)
  qed
qed

lemma single_conjs_atoms:
  assumes "p \<in> set (single_conjs col bounds)" and "a \<in> set p"
  shows "cmp_col a = col \<and> cmp_val a \<in> set bounds"
proof -
  let ?d = "dedup_bounds bounds"
  from assms(1) obtain i where i: "i < length ?d - 1"
    and p: "p = (if i = length ?d - 2 then [Cmp col Ge (?d ! i), Cmp col Le (?d ! (i + 1))]
                 else [Cmp col Ge (?d ! i), Cmp col Lt (?d ! (i + 1))])"
    by (auto simp: single_conjs_def Let_def)
  from i have "?d ! i \<in> set ?d" "?d ! (i + 1) \<in> set ?d" by auto
  then have "?d ! i \<in> set bounds" "?d ! (i + 1) \<in> set bounds"
    by (simp_all add: dedup_bounds_set)
  with p assms(2) show ?thesis by (auto split: if_splits)
qed

lemma first_components_set:
  "first_components bs = Inr fs \<Longrightarrow> x \<in> set fs \<Longrightarrow> \<exists>b \<in> set bs. x \<in> set b"
proof (induction bs arbitrary: fs rule: first_components.induct)
  case (3 y b boundaries)
  then show ?case by (fastforce split: sum.splits)
qed auto

lemma collect_set:
  "collect f xs = Inr ys \<Longrightarrow> y \<in> set ys \<Longrightarrow> \<exists>x \<in> set xs. \<exists>zs. f x = Inr zs \<and> y \<in> set zs"
proof (induction xs arbitrary: ys)
  case (Cons x xs)
  then show ?case by (fastforce split: sum.splits)
qed simp

lemma slice_bounds_set:
  "(lo, hi, is_last) \<in> set (slice_bounds bs) \<Longrightarrow> lo \<in> set bs \<and> hi \<in> set bs"
  by (auto simp: slice_bounds_def)

lemma slice_conjs_atoms:
  assumes "slice_conjs cols bs = Inr ps" and "p \<in> set ps" and "a \<in> set p"
  shows "cmp_col a \<in> set cols \<and> (\<exists>b \<in> set bs. cmp_val a \<in> set b)"
proof (cases "length cols = 1")
  case True
  with assms(1) obtain fs where fs: "first_components bs = Inr fs"
    and ps: "ps = single_conjs (cols ! 0) fs"
    by (auto simp: slice_conjs_def split: sum.splits)
  from single_conjs_atoms[OF assms(2)[unfolded ps] assms(3)]
  have "cmp_col a = cols ! 0" "cmp_val a \<in> set fs" by simp_all
  with first_components_set[OF fs] True show ?thesis by (cases cols) auto
next
  case False
  with assms(1) have "collect (\<lambda>(lo, hi, is_last). composite_conjs cols lo hi is_last)
      (slice_bounds bs) = Inr ps" by (simp add: slice_conjs_def)
  from collect_set[OF this assms(2)] obtain lo hi is_last zs where
    x: "(lo, hi, is_last) \<in> set (slice_bounds bs)"
    and zs: "composite_conjs cols lo hi is_last = Inr zs" "p \<in> set zs" by auto
  from composite_conjs_atoms[OF zs assms(3)] slice_bounds_set[OF x] show ?thesis by auto
qed

text \<open>
  Claim C7, as the code has it. The conditions of a run are the texts of conjunctions of
  comparisons, joined by \<^verbatim>\<open>AND\<close> alone; column names and literals are copied into
  them as they are. So when no key column name and no formatted boundary literal
  contains \<^verbatim>\<open>OR\<close> (or \<^verbatim>\<open>UNION\<close>), no emitted condition contains it.
\<close>

theorem keyword_free_predicates:
  assumes "slice_wheres pk_cols boundaries = Inr conds"
    and "w = ''OR'' \<or> w = ''UNION''"
    and "\<forall>c \<in> set pk_cols. \<not> sublist w c"
    and "\<forall>b \<in> set boundaries. \<forall>v \<in> set b. \<not> sublist w (fmt_literal v)"
  shows "(\<exists>ps. slice_conjs pk_cols boundaries = Inr ps \<and> conds = map (render fmt_literal) ps)
       \<and> (\<forall>cond \<in> set conds. \<not> sublist w cond)"
proof -
  from assms(1) obtain ps where ps: "slice_conjs pk_cols boundaries = Inr ps"
    and conds: "conds = map (render fmt_literal) ps"
    unfolding slice_wheres_render by (cases "slice_conjs pk_cols boundaries") auto
  have "\<not> sublist w cond" if "cond \<in> set conds" for cond
  proof
    assume sub: "sublist w cond"
    from that conds obtain p where p: "p \<in> set ps" "cond = render fmt_literal p" by auto
    from sublist_render[OF assms(2) sub[unfolded p(2)]] obtain a where
      a: "a \<in> set p" "sublist w (cmp_col a) \<or> sublist w (fmt_literal (cmp_val a))" by blast
    from slice_conjs_atoms[OF ps p(1) a(1)] assms(3,4) a(2) show False by blast
  qed
  with ps conds show ?thesis by blast
qed

theorem keyword_free_predicates_witness:
  "slice_wheres [''A'', ''B''] [[VInt 1, VInt 2], [VInt 4, VInt 5]]
     = Inr [''A = 1 AND B >= 2'', ''A > 1 AND A < 4'', ''A = 4 AND B <= 5'']
   \<and> list_all (\<lambda>cond. \<not> sublist ''UNION'' cond)
        [''A = 1 AND B >= 2'', ''A > 1 AND A < 4'', ''A = 4 AND B <= 5'']"
proof -
  have r: "slice_wheres [''A'', ''B''] [[VInt 1, VInt 2], [VInt 4, VInt 5]]
     = Inr [''A = 1 AND B >= 2'', ''A > 1 AND A < 4'', ''A = 4 AND B <= 5'']"
    by code_simp
  have w: "''UNION'' = ''OR'' \<or> ''UNION'' = ''UNION''" by simp
  have c: "\<forall>c \<in> set [''A'', ''B'']. \<not> sublist ''UNION'' c" by code_simp
  have v: "\<forall>b \<in> set [[VInt 1, VInt 2], [VInt 4, VInt 5]]. \<forall>v \<in> set b.
             \<not> sublist ''UNION'' (fmt_literal v)" by code_simp
  from keyword_free_predicates[OF r w c v]
  have "\<forall>cond \<in> set [''A = 1 AND B >= 2'', ''A > 1 AND A < 4'', ''A = 4 AND B <= 5''].
          \<not> sublist ''UNION'' cond" by blast
  then have "list_all (\<lambda>cond. \<not> sublist ''UNION'' cond)
        [''A = 1 AND B >= 2'', ''A > 1 AND A < 4'', ''A = 4 AND B <= 5'']"
    unfolding list_all_iff .
  with r show ?thesis by blast
qed

text \<open>
  Claim C7 as stated fails: a key column named \<^verbatim>\<open>ORDER_ID\<close> puts the substring
  \<^verbatim>\<open>OR\<close> into the condition, one named \<^verbatim>\<open>UNION_NO\<close> the substring \<^verbatim>\<open>UNION\<close>.
\<close>

theorem keyword_in_predicate_counterexample:
  "slice_wheres [''ORDER_ID'', ''UNION_NO''] [[VInt 1, VInt 2], [VInt 1, VInt 5]]
     = Inr [''ORDER_ID = 1 AND UNION_NO >= 2 AND UNION_NO <= 5'']
   \<and> sublist ''OR'' ''ORDER_ID = 1 AND UNION_NO >= 2 AND UNION_NO <= 5''
   \<and> sublist ''UNION'' ''ORDER_ID = 1 AND UNION_NO >= 2 AND UNION_NO <= 5''"
  by code_simp

section \<open>The sampled ranks\<close>

lemma round_half_even_cases:
  "round_half_even x b = x div b \<or> round_half_even x b = x div b + 1"
  by (simp add: round_half_even_def Let_def)

lemma round_half_even_upper:
  assumes "0 < b" and "x \<le> n * b"
  shows "round_half_even x b \<le> n"
proof -
  from assms have le: "x div b \<le> n"
    by (metis nonzero_mult_div_cancel_right less_irrefl zdiv_mono1)
  show ?thesis
  proof (cases "x div b = n")
    case True
    have "x = b * (x div b) + x mod b" by simp
    with True assms(2) have "x mod b \<le> 0" by (simp add: mult.commute)
    moreover from assms(1) have "0 \<le> x mod b" by simp
    ultimately have "x mod b = 0" by simp
    with assms(1) True show ?thesis by (simp add: round_half_even_def Let_def)
  next
    case False
    with le round_half_even_cases[of x b] show ?thesis by auto
  qed
qed

lemma round_half_even_lower:
  assumes "0 < b" and "n * b \<le> x"
  shows "n \<le> round_half_even x b"
proof -
  from assms have "n \<le> x div b"
    by (metis nonzero_mult_div_cancel_right less_irrefl zdiv_mono1)
  with round_half_even_cases[of x b] show ?thesis by auto
qed

lemma round_half_even_strict:
  assumes "0 < b" and "b < 2 * (x - n * b)"
  shows "n < round_half_even x b"
proof -
  from assms have nb: "n * b \<le> x" by simp
  with assms(1) have le: "n \<le> x div b"
    by (metis nonzero_mult_div_cancel_right less_irrefl zdiv_mono1)
  show ?thesis
  proof (cases "x div b = n")
    case True
    have "x = b * (x div b) + x mod b" by simp
    with True have "x mod b = x - n * b" by (simp add: mult.commute)
    with assms(2) have "b < 2 * (x mod b)" by simp
    with True show ?thesis by (simp add: round_half_even_def Let_def)
  next
    case False
    with le round_half_even_cases[of x b] show ?thesis by auto
  qed
qed

lemma bitlen_le_53:
  assumes "0 < a" and "a < 2 ^ 53"
  shows "bitlen a \<le> 53"
proof (rule ccontr)
  assume "\<not> bitlen a \<le> 53"
  then have "54 \<le> bitlen a" by simp
  then have "(53::nat) \<le> nat (bitlen a - 1)" by simp
  then have "(2::int) ^ 53 \<le> 2 ^ nat (bitlen a - 1)" by (intro power_increasing) simp_all
  also from bitlen_bounds[OF assms(1)] have "\<dots> \<le> a" by simp
  finally show False using assms(2) by simp
qed

lemma bitlen_pos: "0 < b \<Longrightarrow> 1 \<le> bitlen b"
  using bitlen_eq_zero_iff[of b] bitlen_nonneg[of b] by linarith

lemma floor_log2_le_diff: "floor_log2 a b \<le> bitlen a - bitlen b"
  by (simp add: floor_log2_def Let_def)

lemma floor_log2_le_52:
  assumes "0 < a" and "a < 2 ^ 53" and "0 < b"
  shows "floor_log2 a b \<le> 52"
  using floor_log2_le_diff[of a b] bitlen_le_53[OF assms(1,2)] bitlen_pos[OF assms(3)]
  by linarith

lemma floor_log2_lower:
  assumes "0 < a" and "0 < b" and "0 < floor_log2 a b"
  shows "b * 2 ^ nat (floor_log2 a b) \<le> a"
proof -
  let ?d = "bitlen a - bitlen b"
  from assms(3) floor_log2_le_diff[of a b] have d: "0 < ?d" by linarith
  show ?thesis
  proof (cases "b * 2 ^ nat ?d \<le> a")
    case True
    with d show ?thesis by (simp add: floor_log2_def Let_def)
  next
    case False
    with d have f: "floor_log2 a b = ?d - 1" by (simp add: floor_log2_def Let_def)
    from bitlen_bounds[OF assms(2)] have "b < 2 ^ nat (bitlen b)" by simp
    then have "b * 2 ^ nat (?d - 1) \<le> 2 ^ nat (bitlen b) * 2 ^ nat (?d - 1)"
      by (intro mult_right_mono) simp_all
    also have "\<dots> = 2 ^ (nat (bitlen b) + nat (?d - 1))" by (simp add: power_add)
    also have "nat (bitlen b) + nat (?d - 1) = nat (bitlen a - 1)"
      using d bitlen_pos[OF assms(2)] by simp
    also from bitlen_bounds[OF assms(1)] have "2 ^ nat (bitlen a - 1) \<le> a" by simp
    finally show ?thesis by (simp add: f)
  qed
qed

lemma floor_log2_bounds:
  assumes "0 < a" and "0 < b"
  shows "(0 \<le> floor_log2 a b \<longrightarrow>
            b * 2 ^ nat (floor_log2 a b) \<le> a \<and> a < b * 2 ^ nat (floor_log2 a b + 1))
       \<and> (floor_log2 a b < 0 \<longrightarrow>
            b \<le> a * 2 ^ nat (- floor_log2 a b) \<and> a * 2 ^ nat (- floor_log2 a b - 1) < b)"
proof -
  let ?la = "bitlen a" and ?lb = "bitlen b"
  let ?d = "?la - ?lb"
  from bitlen_bounds[OF assms(1)] have a1: "2 ^ nat (?la - 1) \<le> a" and a2: "a < 2 ^ nat ?la"
    by simp_all
  from bitlen_bounds[OF assms(2)] have b1: "2 ^ nat (?lb - 1) \<le> b" and b2: "b < 2 ^ nat ?lb"
    by simp_all
  from bitlen_pos[OF assms(1)] bitlen_pos[OF assms(2)] have la: "1 \<le> ?la" and lb: "1 \<le> ?lb"
    by simp_all
  have up: "a < b * 2 ^ n" if "nat ?la = nat (?lb - 1) + n" for n
  proof -
    from a2 that have "a < 2 ^ nat (?lb - 1) * 2 ^ n" by (simp add: power_add[symmetric])
    also from b1 have "\<dots> \<le> b * 2 ^ n" by (intro mult_right_mono) simp_all
    finally show ?thesis .
  qed
  have low: "b * 2 ^ n \<le> a" if "nat (?la - 1) = nat ?lb + n" for n
  proof -
    from b2 have "b * 2 ^ n \<le> 2 ^ nat ?lb * 2 ^ n" by (intro mult_right_mono) simp_all
    also from that have "\<dots> = 2 ^ nat (?la - 1)" by (simp add: power_add[symmetric])
    also note a1
    finally show ?thesis .
  qed
  have up': "a * 2 ^ n < b" if "nat ?la + n = nat (?lb - 1)" for n
  proof -
    from a2 have "a * 2 ^ n < 2 ^ nat ?la * 2 ^ n" by (intro mult_strict_right_mono) simp_all
    also from that have "\<dots> = 2 ^ nat (?lb - 1)" by (simp add: power_add[symmetric])
    also note b1
    finally show ?thesis .
  qed
  have low': "b \<le> a * 2 ^ n" if "nat (?la - 1) + n = nat ?lb" for n
  proof -
    from b2 that have "b < 2 ^ nat (?la - 1) * 2 ^ n" by (simp add: power_add[symmetric])
    also from a1 have "\<dots> \<le> a * 2 ^ n" by (intro mult_right_mono) simp_all
    finally show ?thesis by simp
  qed
  show ?thesis
  proof (cases "0 \<le> ?d")
    case d: True
    show ?thesis
    proof (cases "b * 2 ^ nat ?d \<le> a")
      case True
      with d have f: "floor_log2 a b = ?d" by (simp add: floor_log2_def Let_def)
      have "a < b * 2 ^ nat (?d + 1)" using d la lb by (intro up) simp
      with True d show ?thesis by (simp add: f)
    next
      case False
      with d have f: "floor_log2 a b = ?d - 1" by (simp add: floor_log2_def Let_def)
      from False have u: "a < b * 2 ^ nat ?d" by simp
      show ?thesis
      proof (cases "?d = 0")
        case True
        have "b \<le> a * 2 ^ 1" using True la lb by (intro low') simp
        with u True show ?thesis by (simp add: f)
      next
        case False
        with d have d1: "1 \<le> ?d" by simp
        have "b * 2 ^ nat (?d - 1) \<le> a" using d1 la lb by (intro low) simp
        with u d1 show ?thesis by (simp add: f)
      qed
    qed
  next
    case d: False
    show ?thesis
    proof (cases "b \<le> a * 2 ^ nat (- ?d)")
      case True
      with d have f: "floor_log2 a b = ?d" by (simp add: floor_log2_def Let_def)
      have "a * 2 ^ nat (- ?d - 1) < b" using d la lb by (intro up') simp
      with True d show ?thesis by (simp add: f)
    next
      case False
      with d have f: "floor_log2 a b = ?d - 1" by (simp add: floor_log2_def Let_def)
      from False have u: "a * 2 ^ nat (- ?d) < b" by simp
      have "b \<le> a * 2 ^ nat (1 - ?d)" using d la lb by (intro low') simp
      with u d show ?thesis by (simp add: f algebra_simps)
    qed
  qed
qed

lemma ceil_quot_le:
  assumes "0 < y"
  shows "- ((- x) div y) \<le> n \<longleftrightarrow> x \<le> n * (y::int)"
proof -
  have "- ((- x) div y) = \<lceil>real_of_int x / real_of_int y\<rceil>"
    by (simp add: ceiling_divide_eq_div)
  also have "\<dots> \<le> n \<longleftrightarrow> real_of_int x / real_of_int y \<le> real_of_int n"
    by (rule ceiling_le_iff)
  also have "\<dots> \<longleftrightarrow> real_of_int x \<le> real_of_int n * real_of_int y"
    using assms by (simp add: pos_divide_le_eq)
  also have "\<dots> \<longleftrightarrow> x \<le> n * y"
    by (metis of_int_le_iff of_int_mult)
  finally show ?thesis .
qed

lemma ceil_quot_eq:
  assumes "0 < (y::int)" and "n * y < x" and "x \<le> (n + 1) * y"
  shows "- ((- x) div y) = n + 1"
proof -
  from ceil_quot_le[OF assms(1), of x "n + 1"] assms(3) have "- ((- x) div y) \<le> n + 1" by simp
  moreover from ceil_quot_le[OF assms(1), of x n] assms(2) have "\<not> - ((- x) div y) \<le> n" by simp
  ultimately show ?thesis by linarith
qed

lemma ceil_quot_exact:
  assumes "0 < (y::int)"
  shows "- ((- (n * y)) div y) = n"
  using assms by (metis add.inverse_inverse mult_minus_left nonzero_mult_div_cancel_right less_irrefl)

lemma ceil_truediv_exact:
  assumes "1 \<le> a" and "a < 2 ^ 53" and "1 \<le> b"
  shows "\<exists>c. ceil_truediv a b = Inr c \<and> max 1 c = max 1 (- ((- a) div b))"
proof -
  define F where "F = floor_log2 a b"
  define e where "e = max (F - 52) (- 1074)"
  define s :: int where "s = 2 ^ nat (- e)"
  define m where "m = round_half_even (a * s) b"
  from assms have a0: "0 < a" and b0: "0 < b" by simp_all
  have F52: "F \<le> 52" unfolding F_def by (rule floor_log2_le_52[OF a0 assms(2) b0])
  then have e0: "e \<le> 0" by (simp add: e_def)
  have s0: "0 < s" by (simp add: s_def)
  have fq: "float_quot a b = (m, e)"
  proof (cases "e = 0")
    case True
    then show ?thesis by (simp add: float_quot_def Let_def F_def[symmetric] e_def[symmetric] m_def s_def)
  next
    case False
    with e0 have "\<not> 0 \<le> e" by simp
    then show ?thesis by (simp add: float_quot_def Let_def F_def[symmetric] e_def[symmetric] m_def s_def)
  qed
  have m_le_a: "m \<le> a * s"
    unfolding m_def
  proof (rule round_half_even_upper[OF b0])
    from assms(3) a0 s0 have "a * s * 1 \<le> a * s * b" by (intro mult_left_mono) simp_all
    then show "a * s \<le> a * s * b" by simp
  qed
  define c where "c = - ((- m) div s)"
  have ct: "ceil_truediv a b = Inr c"
  proof (cases "e = 0")
    case True
    then have s1: "s = 1" by (simp add: s_def)
    from m_le_a s1 assms(2) have "m < 2 ^ 53" by simp
    also have "(2::int) ^ 53 \<le> 2 ^ 1024" by (intro power_increasing) simp_all
    finally have "\<not> 2 ^ 1024 \<le> m" by simp
    with True a0 b0 s1 show ?thesis by (simp add: ceil_truediv_def fq c_def)
  next
    case False
    with e0 have "\<not> 0 \<le> e" by simp
    with a0 b0 show ?thesis by (simp add: ceil_truediv_def fq c_def s_def)
  qed
  have "max 1 c = max 1 (- ((- a) div b))"
  proof (cases "a < b")
    case True
    have "m \<le> s"
      unfolding m_def
    proof (rule round_half_even_upper[OF b0])
      from True s0 show "a * s \<le> s * b" by (simp add: mult.commute mult_left_mono)
    qed
    then have "c \<le> 1" unfolding c_def using ceil_quot_le[OF s0, of m 1] by simp
    moreover from True have "- ((- a) div b) \<le> 1" using ceil_quot_le[OF b0, of a 1] by simp
    ultimately show ?thesis by simp
  next
    case False
    then have ba: "b \<le> a" by simp
    define t where "t = a div b"
    define r where "r = a mod b"
    have a_eq: "a = t * b + r" by (simp add: t_def r_def)
    from b0 have r_bounds: "0 \<le> r" "r < b" by (simp_all add: r_def)
    show ?thesis
    proof (cases "r = 0")
      case True
      then have eq: "a * s = (t * s) * b" by (simp add: a_eq algebra_simps)
      have le1: "a * s \<le> (t * s) * b" and le2: "(t * s) * b \<le> a * s"
        unfolding eq by (rule order_refl)+
      have "m \<le> t * s" unfolding m_def by (rule round_half_even_upper[OF b0 le1])
      moreover have "t * s \<le> m" unfolding m_def by (rule round_half_even_lower[OF b0 le2])
      ultimately have "m = t * s" by simp
      then have "c = t" unfolding c_def using ceil_quot_exact[OF s0, of t] by simp
      moreover from True have "- ((- a) div b) = t"
        using ceil_quot_exact[OF b0, of t] by (simp add: a_eq)
      ultimately show ?thesis by simp
    next
      case False
      with r_bounds have r1: "1 \<le> r" by simp
      have b2s: "b < 2 * s"
      proof (cases "0 < F")
        case True
        then have e_eq: "e = F - 52" by (simp add: e_def)
        from floor_log2_lower[OF a0 b0] True have "b * 2 ^ nat F \<le> a" by (simp add: F_def)
        with assms(2) have "b * 2 ^ nat F < 2 ^ 53" by simp
        also have "(53::nat) = Suc (nat (52 - F)) + nat F" using True F52 by simp
        finally have "b * 2 ^ nat F < (2 * 2 ^ nat (52 - F)) * 2 ^ nat F"
          by (simp add: power_add)
        then have "b < 2 * 2 ^ nat (52 - F)" by (simp add: mult_less_cancel_right)
        then show ?thesis by (simp add: s_def e_eq)
      next
        case False
        then have "e \<le> - 52" by (simp add: e_def)
        then have "(52::nat) \<le> nat (- e)" by simp
        then have "(2::int) ^ 52 \<le> s" unfolding s_def by (intro power_increasing) simp_all
        with ba assms(2) show ?thesis by simp
      qed
      have upper: "m \<le> (t + 1) * s"
        unfolding m_def
      proof (rule round_half_even_upper[OF b0])
        from r_bounds have "a \<le> (t + 1) * b" by (simp add: a_eq algebra_simps)
        with s0 have "a * s \<le> ((t + 1) * b) * s" by (intro mult_right_mono) simp_all
        then show "a * s \<le> (t + 1) * s * b" by (simp add: algebra_simps)
      qed
      have lower: "t * s < m"
        unfolding m_def
      proof (rule round_half_even_strict[OF b0])
        have "a * s - t * s * b = r * s" by (simp add: a_eq algebra_simps)
        moreover from r1 s0 have "1 * s \<le> r * s" by (intro mult_right_mono) simp_all
        ultimately show "b < 2 * (a * s - t * s * b)" using b2s by simp
      qed
      have "c = t + 1" unfolding c_def by (rule ceil_quot_eq[OF s0 lower upper])
      moreover have "- ((- a) div b) = t + 1"
      proof (rule ceil_quot_eq[OF b0])
        from r1 show "t * b < a" by (simp add: a_eq)
        from r_bounds show "a \<le> (t + 1) * b" by (simp add: a_eq algebra_simps)
      qed
      ultimately show ?thesis by simp
    qed
  qed
  with ct show ?thesis by blast
qed

lemma fetch_step_exact:
  assumes "1 \<le> N" and "N < 2 ^ 53" and "1 \<le> K"
  shows "fetch_step N K = Inr (max 1 \<lceil>real_of_int N / real_of_int K\<rceil>)"
proof -
  from ceil_truediv_exact[OF assms] obtain c where
    c: "ceil_truediv N K = Inr c" "max 1 c = max 1 (- ((- N) div K))" by blast
  have "- ((- N) div K) = \<lceil>real_of_int N / real_of_int K\<rceil>"
    by (simp add: ceiling_divide_eq_div)
  with c show ?thesis by (simp add: fetch_step_def)
qed

lemma fetch_rns_set: "set (fetch_rns step N K) = {1 + i * step | i. 0 \<le> i \<and> i < K} \<union> {N}"
  by (auto simp: fetch_rns_def)

lemma fetch_rns_sorted: "sorted (fetch_rns step N K)" "distinct (fetch_rns step N K)"
  by (simp_all add: fetch_rns_def)

lemma fetch_rns_length: "length (fetch_rns step N K) \<le> nat K + 1"
proof -
  have "length (fetch_rns step N K) \<le> length (map (\<lambda>i. 1 + i * step) [0 .. K - 1] @ [N])"
    unfolding fetch_rns_def length_sort by (rule length_remdups_leq)
  also have "\<dots> = nat K + 1" by simp
  finally show ?thesis .
qed

text \<open>
  Claim C4, as the code has it. For a row count \<open>1 \<le> N < 2 ^ 53\<close> and a slice count
  \<open>K \<ge> 1\<close> the float quotient loses nothing: the stride is \<open>max 1 \<lceil>N / K\<rceil>\<close>, the
  sampler asks for the ranks \<open>{1 + i * step | 0 \<le> i < K} \<union> {N}\<close>, sorted ascending
  without duplicates, the last rank \<open>N\<close> is among them and there are at most \<open>K + 1\<close>.
\<close>

theorem fetch_rns_targets:
  assumes "1 \<le> N" and "N < 2 ^ 53" and "1 \<le> K"
  shows "\<exists>step. fetch_step N K = Inr step
           \<and> step = max 1 \<lceil>real_of_int N / real_of_int K\<rceil>
           \<and> (\<forall>db. int (length (key_rows db)) = N \<longrightarrow>
                  fst (fetch_pk_boundaries db K) = [CountRows, SampleRows (fetch_rns step N K)])
           \<and> set (fetch_rns step N K) = {1 + i * step | i. 0 \<le> i \<and> i < K} \<union> {N}
           \<and> sorted (fetch_rns step N K) \<and> distinct (fetch_rns step N K)
           \<and> N \<in> set (fetch_rns step N K)
           \<and> length (fetch_rns step N K) \<le> nat K + 1"
proof -
  let ?step = "max 1 \<lceil>real_of_int N / real_of_int K\<rceil>"
  have step: "fetch_step N K = Inr ?step" by (rule fetch_step_exact[OF assms])
  have sampler: "fst (fetch_pk_boundaries db K) = [CountRows, SampleRows (fetch_rns ?step N K)]"
    if "int (length (key_rows db)) = N" for db
    using that assms(1) step by (simp add: fetch_pk_boundaries_def Let_def)
  have mem: "N \<in> set (fetch_rns ?step N K)" by (simp add: fetch_rns_set)
  from step sampler mem fetch_rns_set[of ?step N K] fetch_rns_sorted[of ?step N K]
    fetch_rns_length[of ?step N K]
  show ?thesis by blast
qed

theorem fetch_rns_targets_witness:
  "fetch_step 30 3 = Inr 10
   \<and> max 1 \<lceil>real_of_int 30 / real_of_int 3\<rceil> = 10
   \<and> fetch_rns 10 30 3 = [1, 11, 21, 30]
   \<and> fst (fetch_pk_boundaries \<lparr>pk_columns = [''ID''], key_rows = map (\<lambda>i. [VInt i]) [1 .. 30]\<rparr> 3)
       = [CountRows, SampleRows [1, 11, 21, 30]]"
proof -
  have a: "(1::int) \<le> 30" and b: "(30::int) < 2 ^ 53" and c: "(1::int) \<le> 3" by simp_all
  have m: "max 1 \<lceil>real_of_int 30 / real_of_int 3\<rceil> = 10" by simp
  have r: "fetch_rns 10 30 3 = [1, 11, 21, 30]" by code_simp
  have l: "int (length (key_rows \<lparr>pk_columns = [''ID''], key_rows = map (\<lambda>i. [VInt i]) [1 .. 30]\<rparr>)) = 30"
    by simp
  from fetch_rns_targets[OF a b c] obtain step where
    s: "fetch_step 30 3 = Inr step" "step = max 1 \<lceil>real_of_int 30 / real_of_int 3\<rceil>"
    and db: "\<forall>db. int (length (key_rows db)) = 30 \<longrightarrow>
               fst (fetch_pk_boundaries db 3) = [CountRows, SampleRows (fetch_rns step 30 3)]"
    by blast
  from s m have step: "step = 10" by simp
  from db l have "fst (fetch_pk_boundaries
        \<lparr>pk_columns = [''ID''], key_rows = map (\<lambda>i. [VInt i]) [1 .. 30]\<rparr> 3)
      = [CountRows, SampleRows (fetch_rns step 30 3)]" by blast
  with s step m r show ?thesis by simp
qed

text \<open>
  Claim C4 as stated, for every \<open>N \<ge> 1\<close>, fails: at \<open>N = 2 ^ 53 + 1\<close> and \<open>K = 2\<close>
  the quotient \<open>4503599627370496.5\<close> is a tie between two doubles and rounds to the
  even one below, so the stride is one less than \<open>\<lceil>N / K\<rceil>\<close>.
\<close>

theorem fetch_step_float_counterexample:
  "fetch_step (2 ^ 53 + 1) 2 = Inr 4503599627370496
   \<and> max 1 \<lceil>real_of_int (2 ^ 53 + 1) / real_of_int 2\<rceil> = 4503599627370497
   \<and> fetch_step (2 ^ 53 + 1) 2 \<noteq> Inr (max 1 \<lceil>real_of_int (2 ^ 53 + 1) / real_of_int 2\<rceil>)"
proof -
  have s: "fetch_step (2 ^ 53 + 1) 2 = Inr 4503599627370496" by code_simp
  have "\<lceil>real_of_int (2 ^ 53 + 1) / real_of_int 2\<rceil> = - ((- (2 ^ 53 + 1)) div (2::int))"
    by (simp only: ceiling_divide_eq_div)
  also have "\<dots> = 4503599627370497" by simp
  finally have c: "max 1 \<lceil>real_of_int (2 ^ 53 + 1) / real_of_int 2\<rceil> = 4503599627370497"
    by simp
  from s c show ?thesis by simp
qed

section \<open>Timestamps below the second\<close>

text \<open>
  \<^verbatim>\<open>fmt_literal\<close> writes a datetime with \<^verbatim>\<open>%Y-%m-%d %H:%M:%S\<close>: the microseconds are
  not part of the literal, so two datetimes within one second have the same text.
\<close>

lemma fmt_literal_timestamp: "fmt_literal (VDateTime 2024 3 5 0 0 2 0)
    = ''TIMESTAMP '' @ [sq] @ ''2024-03-05 00:00:02'' @ [sq]"
  by (simp add: fmt_ymd_def fmt_hms_def zfill_def str_nat.simps digit_char_def)

lemma fmt_literal_timestamp_micro: "fmt_literal (VDateTime 2024 3 5 0 0 2 500000)
    = ''TIMESTAMP '' @ [sq] @ ''2024-03-05 00:00:02'' @ [sq]"
  by (simp add: fmt_ymd_def fmt_hms_def zfill_def str_nat.simps digit_char_def)

lemma fmt_literal_midnight: "fmt_literal (VDateTime 2024 3 5 0 0 0 0)
    = ''DATE '' @ [sq] @ ''2024-03-05'' @ [sq]"
  by (simp add: fmt_ymd_def fmt_hms_def zfill_def str_nat.simps digit_char_def)

lemma fmt_literal_small_int: "fmt_literal (VInt 1) = ''1''" "fmt_literal (VInt 3) = ''3''"
  by (simp_all add: str_int_def str_nat.simps digit_char_def)

lemma fetch_step_small: "fetch_step 2 1 = Inr 2" "fetch_step 3 3 = Inr 1"
  by code_simp+

lemma fetch_rns_small: "fetch_rns 2 2 1 = [1, 2]" "fetch_rns 1 3 3 = [1, 2, 3]"
  by code_simp+

lemma fmt_literal_next_day:
  "fmt_literal (VDateTime 2024 3 6 0 0 2 500000)
     = ''TIMESTAMP '' @ [sq] @ ''2024-03-06 00:00:02'' @ [sq]"
  "fmt_literal (VDateTime 2024 3 6 0 0 2 0)
     = ''TIMESTAMP '' @ [sq] @ ''2024-03-06 00:00:02'' @ [sq]"
  by (simp_all add: fmt_ymd_def fmt_hms_def zfill_def str_nat.simps digit_char_def)

lemma fmt_literal_micro_dropped:
  "fmt_literal (VDateTime 2024 3 5 0 0 2 900000)
     = ''TIMESTAMP '' @ [sq] @ ''2024-03-05 00:00:02'' @ [sq]"
  by (simp add: fmt_ymd_def fmt_hms_def zfill_def str_nat.simps digit_char_def)

lemma slice_bounds_Nil: "slice_bounds [] = []"
  by (simp add: slice_bounds_def)

lemma slice_bounds_single: "slice_bounds [a] = []"
  by (simp add: slice_bounds_def)

lemma slice_bounds_pair: "slice_bounds [a, b] = [(a, b, True)]"
  by (simp add: slice_bounds_def)

lemma slice_bounds_triple: "slice_bounds [a, b, c] = [(a, b, False), (b, c, True)]"
  by (simp add: slice_bounds_def upt_rec)

lemma select_ranks_all2: "select_ranks [r1, r2] [1, 2] = [r1, r2]"
  by (simp add: select_ranks_def)

lemma select_ranks_all3: "select_ranks [r1, r2, r3] [1, 2, 3] = [r1, r2, r3]"
  by (simp add: select_ranks_def)

text \<open>
  Claim C1, at an interval whose upper bound is a timestamp with microseconds. The rows
  \<open>(1, 2024-03-05 00:00:00)\<close> and \<open>(1, 2024-03-06 00:00:02.5)\<close> under the key
  \<open>(id, ts)\<close> give one last interval, and its one predicate ends at the literal
  \<^verbatim>\<open>TIMESTAMP '2024-03-06 00:00:02'\<close>: the same text as for the upper bound
  \<open>2024-03-06 00:00:02\<close>, half a second below the largest key.
\<close>

theorem timestamp_literal_excludes_maximum:
  "build_composite_slice_wheres [''id'', ''ts'']
       [VInt 1, VDateTime 2024 3 5 0 0 0 0] [VInt 1, VDateTime 2024 3 6 0 0 2 500000] True
     = Inr [''id = 1 AND ts >= DATE '' @ [sq] @ ''2024-03-05'' @ [sq]
            @ '' AND ts <= TIMESTAMP '' @ [sq] @ ''2024-03-06 00:00:02'' @ [sq]]
   \<and> build_composite_slice_wheres [''id'', ''ts'']
       [VInt 1, VDateTime 2024 3 5 0 0 0 0] [VInt 1, VDateTime 2024 3 6 0 0 2 500000] True
     = build_composite_slice_wheres [''id'', ''ts'']
       [VInt 1, VDateTime 2024 3 5 0 0 0 0] [VInt 1, VDateTime 2024 3 6 0 0 2 0] True
   \<and> generate_slice_sql \<lparr>psycopg2_installed = True, cx_Oracle_installed = True\<rparr>
       \<lparr>pk_columns = [''id'', ''ts''],
        key_rows = [[VInt 1, VDateTime 2024 3 5 0 0 0 0],
                    [VInt 1, VDateTime 2024 3 6 0 0 2 500000]]\<rparr> ''pg'' ''t'' 1
     = ([PkLookup, CountRows, SampleRows [1, 2]],
        Inr [''SELECT * FROM t WHERE id = 1 AND ts >= DATE '' @ [sq] @ ''2024-03-05'' @ [sq]
             @ '' AND ts <= TIMESTAMP '' @ [sq] @ ''2024-03-06 00:00:02'' @ [sq] @ '';''])"
proof -
  let ?lo = "[VInt 1, VDateTime 2024 3 5 0 0 0 0]"
  let ?hi = "[VInt 1, VDateTime 2024 3 6 0 0 2 500000]"
  let ?hi' = "[VInt 1, VDateTime 2024 3 6 0 0 2 0]"
  let ?w = "''id = 1 AND ts >= DATE '' @ [sq] @ ''2024-03-05'' @ [sq]
            @ '' AND ts <= TIMESTAMP '' @ [sq] @ ''2024-03-06 00:00:02'' @ [sq]"
  have b: "build_composite_slice_wheres [''id'', ''ts''] ?lo ?hi True = Inr [?w]"
    by (simp add: fmt_literal_small_int fmt_literal_midnight fmt_literal_next_day
        del: fmt_literal.simps)
  have b': "build_composite_slice_wheres [''id'', ''ts''] ?lo ?hi' True = Inr [?w]"
    by (simp add: fmt_literal_small_int fmt_literal_midnight fmt_literal_next_day
        del: fmt_literal.simps)
  have f: "fetch_pk_boundaries \<lparr>pk_columns = [''id'', ''ts''], key_rows = [?lo, ?hi]\<rparr> 1
      = ([CountRows, SampleRows [1, 2]], Inr [?lo, ?hi])"
    by (simp add: fetch_pk_boundaries_def fetch_step_small fetch_rns_small select_ranks_all2)
  have s: "slice_wheres [''id'', ''ts''] [?lo, ?hi] = Inr [?w]"
    by (simp add: slice_wheres_def slice_bounds_pair b del: build_composite_slice_wheres.simps)
  have g: "generate_slice_sql \<lparr>psycopg2_installed = True, cx_Oracle_installed = True\<rparr>
       \<lparr>pk_columns = [''id'', ''ts''], key_rows = [?lo, ?hi]\<rparr> ''pg'' ''t'' 1
     = ([PkLookup, CountRows, SampleRows [1, 2]], Inr [''SELECT * FROM t WHERE '' @ ?w @ '';''])"
    by (simp add: generate_slice_sql_def parse_table_def f s
        del: build_composite_slice_wheres.simps)
  from b b' g show ?thesis by simp
qed

text \<open>
  Claim C2, at boundaries whose leading timestamps differ below the second. The three
  rows \<open>(00:00:02.0, 3)\<close>, \<open>(00:00:02.5, 3)\<close>, \<open>(00:00:02.9, 3)\<close> of one day under the key
  \<open>(ts, b)\<close> are three boundaries with unequal leading values, so both intervals take
  the three-band branch; all three timestamps have the same literal, and the run emits
  the predicate \<^verbatim>\<open>ts = TIMESTAMP '2024-03-05 00:00:02' AND b >= 3\<close> twice and
  \<^verbatim>\<open>ts = TIMESTAMP '2024-03-05 00:00:02' AND b <= 3\<close> besides: the first row satisfies
  all three.
\<close>

theorem timestamp_literals_overlap:
  "slice_wheres [''ts'', ''b'']
       [[VDateTime 2024 3 5 0 0 2 0, VInt 3],
        [VDateTime 2024 3 5 0 0 2 500000, VInt 3],
        [VDateTime 2024 3 5 0 0 2 900000, VInt 3]]
     = Inr [''ts = TIMESTAMP '' @ [sq] @ ''2024-03-05 00:00:02'' @ [sq] @ '' AND b >= 3'',
            ''ts > TIMESTAMP '' @ [sq] @ ''2024-03-05 00:00:02'' @ [sq]
              @ '' AND ts < TIMESTAMP '' @ [sq] @ ''2024-03-05 00:00:02'' @ [sq],
            ''ts = TIMESTAMP '' @ [sq] @ ''2024-03-05 00:00:02'' @ [sq] @ '' AND b < 3'',
            ''ts = TIMESTAMP '' @ [sq] @ ''2024-03-05 00:00:02'' @ [sq] @ '' AND b >= 3'',
            ''ts > TIMESTAMP '' @ [sq] @ ''2024-03-05 00:00:02'' @ [sq]
              @ '' AND ts < TIMESTAMP '' @ [sq] @ ''2024-03-05 00:00:02'' @ [sq],
            ''ts = TIMESTAMP '' @ [sq] @ ''2024-03-05 00:00:02'' @ [sq] @ '' AND b <= 3'']
   \<and> generate_slice_sql \<lparr>psycopg2_installed = True, cx_Oracle_installed = True\<rparr>
       \<lparr>pk_columns = [''ts'', ''b''],
        key_rows = [[VDateTime 2024 3 5 0 0 2 0, VInt 3],
                    [VDateTime 2024 3 5 0 0 2 500000, VInt 3],
                    [VDateTime 2024 3 5 0 0 2 900000, VInt 3]]\<rparr> ''pg'' ''t'' 3
     = ([PkLookup, CountRows, SampleRows [1, 2, 3]],
        Inr (map (\<lambda>cond. ''SELECT * FROM t WHERE '' @ cond @ '';'')
          [''ts = TIMESTAMP '' @ [sq] @ ''2024-03-05 00:00:02'' @ [sq] @ '' AND b >= 3'',
           ''ts > TIMESTAMP '' @ [sq] @ ''2024-03-05 00:00:02'' @ [sq]
             @ '' AND ts < TIMESTAMP '' @ [sq] @ ''2024-03-05 00:00:02'' @ [sq],
           ''ts = TIMESTAMP '' @ [sq] @ ''2024-03-05 00:00:02'' @ [sq] @ '' AND b < 3'',
           ''ts = TIMESTAMP '' @ [sq] @ ''2024-03-05 00:00:02'' @ [sq] @ '' AND b >= 3'',
           ''ts > TIMESTAMP '' @ [sq] @ ''2024-03-05 00:00:02'' @ [sq]
             @ '' AND ts < TIMESTAMP '' @ [sq] @ ''2024-03-05 00:00:02'' @ [sq],
           ''ts = TIMESTAMP '' @ [sq] @ ''2024-03-05 00:00:02'' @ [sq] @ '' AND b <= 3'']))"
proof -
  let ?b0 = "[VDateTime 2024 3 5 0 0 2 0, VInt 3]"
  let ?b1 = "[VDateTime 2024 3 5 0 0 2 500000, VInt 3]"
  let ?b2 = "[VDateTime 2024 3 5 0 0 2 900000, VInt 3]"
  let ?t = "''TIMESTAMP '' @ [sq] @ ''2024-03-05 00:00:02'' @ [sq]"
  let ?ws = "[''ts = '' @ ?t @ '' AND b >= 3'', ''ts > '' @ ?t @ '' AND ts < '' @ ?t,
              ''ts = '' @ ?t @ '' AND b < 3'', ''ts = '' @ ?t @ '' AND b >= 3'',
              ''ts > '' @ ?t @ '' AND ts < '' @ ?t, ''ts = '' @ ?t @ '' AND b <= 3'']"
  have i1: "build_composite_slice_wheres [''ts'', ''b''] ?b0 ?b1 False
      = Inr [''ts = '' @ ?t @ '' AND b >= 3'', ''ts > '' @ ?t @ '' AND ts < '' @ ?t,
             ''ts = '' @ ?t @ '' AND b < 3'']"
    by (simp add: fmt_literal_small_int fmt_literal_timestamp fmt_literal_timestamp_micro
        del: fmt_literal.simps)
  have i2: "build_composite_slice_wheres [''ts'', ''b''] ?b1 ?b2 True
      = Inr [''ts = '' @ ?t @ '' AND b >= 3'', ''ts > '' @ ?t @ '' AND ts < '' @ ?t,
             ''ts = '' @ ?t @ '' AND b <= 3'']"
    by (simp add: fmt_literal_small_int fmt_literal_micro_dropped fmt_literal_timestamp_micro
        del: fmt_literal.simps)
  have s: "slice_wheres [''ts'', ''b''] [?b0, ?b1, ?b2] = Inr ?ws"
    by (simp add: slice_wheres_def slice_bounds_triple i1 i2
        del: build_composite_slice_wheres.simps)
  have f: "fetch_pk_boundaries \<lparr>pk_columns = [''ts'', ''b''], key_rows = [?b0, ?b1, ?b2]\<rparr> 3
      = ([CountRows, SampleRows [1, 2, 3]], Inr [?b0, ?b1, ?b2])"
    by (simp add: fetch_pk_boundaries_def fetch_step_small fetch_rns_small select_ranks_all3)
  have g: "generate_slice_sql \<lparr>psycopg2_installed = True, cx_Oracle_installed = True\<rparr>
       \<lparr>pk_columns = [''ts'', ''b''], key_rows = [?b0, ?b1, ?b2]\<rparr> ''pg'' ''t'' 3
     = ([PkLookup, CountRows, SampleRows [1, 2, 3]],
        Inr (map (\<lambda>cond. ''SELECT * FROM t WHERE '' @ cond @ '';'') ?ws))"
    by (simp add: generate_slice_sql_def parse_table_def f s
        del: build_composite_slice_wheres.simps)
  from s g show ?thesis by simp
qed

section \<open>The table with one row\<close>

lemma filter_eq_distinct:
  "distinct xs \<Longrightarrow> x \<in> set xs \<Longrightarrow> filter (\<lambda>r. r = x) xs = [x]"
  by (induction xs) (auto simp: filter_empty_conv)

lemma select_ranks_one_row: "select_ranks [row] (fetch_rns step 1 k) = [row]"
proof -
  have d: "distinct (fetch_rns step 1 k)" and m: "1 \<in> set (fetch_rns step 1 k)"
    by (simp_all add: fetch_rns_def)
  have "filter (\<lambda>r. 1 \<le> r \<and> r \<le> int (length [row])) (fetch_rns step 1 k)
          = filter (\<lambda>r. r = 1) (fetch_rns step 1 k)"
    by (intro filter_cong) auto
  with filter_eq_distinct[OF d m] show ?thesis by (simp add: select_ranks_def)
qed

lemma fetch_step_one_row:
  assumes "k \<noteq> 0"
  shows "\<exists>step. fetch_step 1 k = Inr step"
proof -
  from assms have b0: "0 < \<bar>k\<bar>" by simp
  have "bitlen 1 = 1" by (simp add: bitlen_alt_def)
  with floor_log2_le_diff[of 1 "\<bar>k\<bar>"] bitlen_pos[OF b0] have "floor_log2 1 \<bar>k\<bar> \<le> 0" by simp
  then have "\<not> 0 \<le> max (floor_log2 1 \<bar>k\<bar> - 52) (- 1074)" by simp
  with assms show ?thesis
    by (auto simp: fetch_step_def ceil_truediv_def float_quot_def Let_def split: sum.splits)
qed

lemma one_row_boundaries:
  assumes "key_rows db = [row]" and "k \<noteq> 0"
  shows "\<exists>rns. fetch_pk_boundaries db k = ([CountRows, SampleRows rns], Inr [row])"
proof -
  from fetch_step_one_row[OF assms(2)] obtain step where "fetch_step 1 k = Inr step" by blast
  with assms(1) show ?thesis
    by (simp add: fetch_pk_boundaries_def Let_def select_ranks_one_row)
qed

lemma one_row_composite_no_statement:
  assumes "key_rows db = [row]" and "k \<noteq> 0" and "2 \<le> length (pk_columns db)"
    and "dbtype = ''pg'' \<and> psycopg2_installed drv \<or> dbtype = ''ora'' \<and> cx_Oracle_installed drv"
  shows "snd (generate_slice_sql drv db dbtype table k) = Inr []"
proof -
  from assms(3) have ne: "pk_columns db \<noteq> []" and n1: "length (pk_columns db) \<noteq> 1" by auto
  have "slice_wheres (pk_columns db) [row] = Inr []"
    using n1 by (simp add: slice_wheres_def slice_bounds_single)
  moreover from one_row_boundaries[OF assms(1,2)] obtain rns where
    "fetch_pk_boundaries db k = ([CountRows, SampleRows rns], Inr [row])" by blast
  ultimately show ?thesis
    using ne assms(4) by (auto simp: generate_slice_sql_def Let_def)
qed

text \<open>
  Claim C3, at a table with one row. With the key columns \<open>A, B\<close> the sampler returns
  the one boundary tuple as it is, the loop over consecutive boundaries has nothing to
  pair, and the generator returns no statement; with the single key column \<open>A\<close> the
  value is doubled and one closed predicate is emitted.
\<close>

theorem one_row_composite_emits_nothing:
  "generate_slice_sql \<lparr>psycopg2_installed = True, cx_Oracle_installed = True\<rparr>
     \<lparr>pk_columns = [''A'', ''B''], key_rows = [[VInt 1, VInt 2]]\<rparr> ''pg'' ''t'' 4
     = ([PkLookup, CountRows, SampleRows [1, 2, 3, 4]], Inr [])
   \<and> fetch_pk_boundaries \<lparr>pk_columns = [''A'', ''B''], key_rows = [[VInt 1, VInt 2]]\<rparr> 4
     = ([CountRows, SampleRows [1, 2, 3, 4]], Inr [[VInt 1, VInt 2]])
   \<and> generate_slice_sql \<lparr>psycopg2_installed = True, cx_Oracle_installed = True\<rparr>
     \<lparr>pk_columns = [''A''], key_rows = [[VInt 1]]\<rparr> ''pg'' ''t'' 4
     = ([PkLookup, CountRows, SampleRows [1, 2, 3, 4]],
        Inr [''SELECT * FROM t WHERE A >= 1 AND A <= 1;''])"
  by code_simp

end
